theory Spec2Isabelle
  imports Main "HOL-Library.AList" "HOL-Library.Multiset"
begin

section \<open>Data model\<close>

text \<open>
  The embedding follows \<^verbatim>\<open>PDF-Downloader.py\<close>. A report identifier (the
  \<^verbatim>\<open>BRnum\<close> index of the reports sheet) is a string; \<^verbatim>\<open>str(idx)\<close> and the
  f-string \<^verbatim>\<open>f"{index}.pdf"\<close> are then the identity and the append of the extension.
  A spreadsheet cell is a \<open>string option\<close>, \<open>None\<close> standing for pandas' NaN, and
  a row maps column names to cells. The tables that the program loads are values:
  the sheets as \<^verbatim>\<open>pd.read_excel\<close> has returned them; the tables that it saves are
  the values handed to \<^verbatim>\<open>to_excel\<close>. The directories \<^verbatim>\<open>Data/Downloads\<close> and
  \<^verbatim>\<open>Data/Output\<close> exist, so that \<^verbatim>\<open>os.makedirs\<close> changes nothing and the sheets can
  be written. The index of the reports sheet has no repeated label where a theorem
  says so.
\<close>

type_synonym ident = string

type_synonym row = "string \<Rightarrow> string option"

text \<open>The reports sheet, read with \<^verbatim>\<open>index_col=ID_COLUMN\<close>: its columns and its
  rows under their index labels. It always has the two URL columns (\<^verbatim>\<open>main\<close> reads
  both before anything else).\<close>

record indexed_frame =
  icolumns :: "string list"
  irows :: "(ident \<times> row) list"

text \<open>A sheet read without an index column (the metadata table).\<close>

record frame =
  fcolumns :: "string list"
  frows :: "row list"

text \<open>One line of \<^verbatim>\<open>Download_Status.xlsx\<close>: the columns
  \<^verbatim>\<open>["Report ID", "Status", "Error Message"]\<close>.\<close>

record status_record =
  Report_ID :: ident
  Status :: string
  Error_Message :: string

text \<open>A file that the program looks for before reading it: missing, present but
  not readable as a sheet, or present with a content.\<close>

datatype 'a stored = Absent | Unreadable | Present 'a

text \<open>The download directory is flat: the files it holds, by name, with their bytes.
  Identifiers hold no path separator, so \<^verbatim>\<open>os.path.join(DOWNLOAD_DIR, f"{index}.pdf")\<close>
  always names an entry of this directory. File names are compared as POSIX does,
  character by character.\<close>

type_synonym directory = "(string \<times> string) list"

datatype error = KeyError string

definition ID_COLUMN :: string where
  "ID_COLUMN = ''BRnum''"

definition MAX_DOWNLOADS :: nat where
  "MAX_DOWNLOADS = 10"

definition MAX_CONCURRENT_THREADS :: nat where
  "MAX_CONCURRENT_THREADS = 5"

section \<open>The existing-state scanner\<close>

definition path_exists :: "directory \<Rightarrow> string \<Rightarrow> bool" where
  "path_exists fs name = (name \<in> fst ` set fs)"

definition endswith :: "string \<Rightarrow> string \<Rightarrow> bool" where
  "endswith s suffix = (length suffix \<le> length s \<and> drop (length s - length suffix) s = suffix)"

text \<open>\<^verbatim>\<open>glob\<close> leaves out the names that begin with a dot unless the pattern
  itself begins with one (\<^verbatim>\<open>glob._ishidden\<close>); the pattern here is \<^verbatim>\<open>*.pdf\<close>.\<close>

definition ishidden :: "string \<Rightarrow> bool" where
  "ishidden name = (case name of [] \<Rightarrow> False | c # _ \<Rightarrow> c = CHR ''.'')"

definition glob_pdf :: "directory \<Rightarrow> string list" where
  "glob_pdf fs = filter (\<lambda>name. \<not> ishidden name \<and> endswith name ''.pdf'') (map fst fs)"

definition get_existing_downloads :: "directory \<Rightarrow> ident list" where
  "get_existing_downloads fs =
     (let downloaded_files = glob_pdf fs;
          existing_ids = map (\<lambda>f. take (length f - 4) f) downloaded_files
      in existing_ids)"

section \<open>One download\<close>

text \<open>What the network and the disk answer is a parameter of the model.
  \<^verbatim>\<open>requests.get\<close> followed by \<^verbatim>\<open>raise_for_status\<close> either yields the response
  body, or raises a \<^verbatim>\<open>RequestException\<close> (transport error, timeout, HTTP error
  status), or raises something else. \<^verbatim>\<open>open(file_path, 'wb')\<close> creates or truncates
  the file before a single byte is written, so a failure of the write that follows
  leaves the file in place with the bytes written so far.\<close>

datatype response =
    Body string
  | RequestException string
  | OtherException string

datatype disk_answer =
    Written
  | OpenRaises string
  | WriteRaises nat string

record world =
  http_get :: "string \<Rightarrow> response"
  file_write :: "string \<Rightarrow> disk_answer"
  completion_time :: "ident \<Rightarrow> nat"

text \<open>The URL a unit fetches: \<^verbatim>\<open>Pdf_URL\<close> when it is not NaN, else
  \<^verbatim>\<open>Report Html Address\<close>, whatever that cell holds (\<^verbatim>\<open>requests\<close> turns a NaN into
  the text \<^verbatim>\<open>nan\<close>).\<close>

definition select_url :: "row \<Rightarrow> string" where
  "select_url r =
     (case r ''Pdf_URL'' of
        Some u \<Rightarrow> u
      | None \<Rightarrow> (case r ''Report Html Address'' of Some u \<Rightarrow> u | None \<Rightarrow> ''nan''))"

text \<open>The state the download threads share: the directory and the list
  \<^verbatim>\<open>download_errors\<close>. The Boolean returned is the local \<^verbatim>\<open>success\<close>.\<close>

definition download_file ::
  "world \<Rightarrow> ident \<Rightarrow> row \<Rightarrow> directory \<times> string list \<Rightarrow> bool \<times> directory \<times> string list" where
  "download_file w index r st =
     (let (fs, download_errors) = st;
          url = select_url r;
          file_path = index @ ''.pdf''
      in case http_get w url of
           RequestException e \<Rightarrow>
             (False, fs, download_errors @ [index, ''Network error: '' @ e])
         | OtherException e \<Rightarrow>
             (False, fs, download_errors @ [index, ''Unexpected error: '' @ e])
         | Body content \<Rightarrow>
             (case file_write w file_path of
                OpenRaises e \<Rightarrow>
                  (False, fs, download_errors @ [index, ''Unexpected error: '' @ e])
              | WriteRaises n e \<Rightarrow>
                  (False, AList.update file_path (take n content) fs,
                   download_errors @ [index, ''Unexpected error: '' @ e])
              | Written \<Rightarrow>
                  (True, AList.update file_path content fs, download_errors)))"

section \<open>The orchestrator\<close>

text \<open>The control flow of \<^verbatim>\<open>download_pdfs\<close> as a transition system. The controller
  is at the head of the \<^verbatim>\<open>for\<close> loop (\<open>Dispatch\<close>), in the inner \<^verbatim>\<open>while\<close> loop
  that polls the number of live threads (\<open>Poll\<close>), in the final waiting loop
  (\<open>Join\<close>), or past it (\<open>Finished\<close>). A thread is alive from \<^verbatim>\<open>thread.start()\<close>
  until its \<^verbatim>\<open>download_file\<close> returns; its effect on the shared state is taken at that
  moment. Only the controller starts threads, so the count a poll reads is never below
  the number of threads alive when the poll ends.\<close>

datatype location = Dispatch | Poll | Join | Finished

record orchestrator =
  pending :: "(ident \<times> row) list"
  threads :: "((ident \<times> row) \<times> bool) list"
  location :: location
  shared :: "directory \<times> string list"
  outcomes :: "(ident \<times> bool) list"

definition alive :: "orchestrator \<Rightarrow> nat" where
  "alive s = length (filter snd (threads s))"

definition initial :: "(ident \<times> row) list \<Rightarrow> directory \<times> string list \<Rightarrow> orchestrator" where
  "initial download_queue st =
     \<lparr>pending = download_queue, threads = [], location = Dispatch, shared = st, outcomes = []\<rparr>"

inductive step :: "world \<Rightarrow> nat \<Rightarrow> orchestrator \<Rightarrow> orchestrator \<Rightarrow> bool"
  for w :: world and c :: nat where
  start: "location s = Dispatch \<Longrightarrow> pending s = u # us \<Longrightarrow>
     step w c s (s\<lparr>pending := us, threads := threads s @ [(u, True)], location := Poll\<rparr>)"
| poll_sleep: "location s = Poll \<Longrightarrow> c \<le> alive s \<Longrightarrow> step w c s s"
| poll_exit: "location s = Poll \<Longrightarrow> alive s < c \<Longrightarrow> step w c s (s\<lparr>location := Dispatch\<rparr>)"
| queue_end: "location s = Dispatch \<Longrightarrow> pending s = [] \<Longrightarrow> step w c s (s\<lparr>location := Join\<rparr>)"
| join_sleep: "location s = Join \<Longrightarrow> 0 < alive s \<Longrightarrow> step w c s s"
| join_exit: "location s = Join \<Longrightarrow> alive s = 0 \<Longrightarrow> step w c s (s\<lparr>location := Finished\<rparr>)"
| finish: "k < length (threads s) \<Longrightarrow> threads s ! k = ((i, r), True) \<Longrightarrow>
     download_file w i r (shared s) = (ok, st') \<Longrightarrow>
     step w c s (s\<lparr>threads := (threads s)[k := ((i, r), False)], shared := st',
                   outcomes := outcomes s @ [(i, ok)]\<rparr>)"

inductive reachable :: "world \<Rightarrow> nat \<Rightarrow> (ident \<times> row) list \<Rightarrow> directory \<times> string list \<Rightarrow> orchestrator \<Rightarrow> bool"
  for w :: world and c :: nat and download_queue :: "(ident \<times> row) list" and st :: "directory \<times> string list" where
  init: "reachable w c download_queue st (initial download_queue st)"
| next_step: "reachable w c download_queue st s \<Longrightarrow> step w c s s' \<Longrightarrow> reachable w c download_queue st s'"

text \<open>The result of \<^verbatim>\<open>download_pdfs\<close> as a function. The loop starts one thread for
  every row of the queue and returns when all of them have ended, so every unit of the
  queue runs once. The effects of the units take place in the order in which their
  threads end: the world gives every unit the time at which its thread ends, and units
  that end together are taken in the order of the queue. Every assignment of times
  is allowed here, more than the bound on the live threads allows; each run of the
  transition system above that reaches \<open>Finished\<close> leaves what \<^verbatim>\<open>run_units\<close>
  computes for some order of the queue (lemma \<open>orchestrator_result\<close>).\<close>

fun run_units ::
  "world \<Rightarrow> (ident \<times> row) list \<Rightarrow> (ident \<times> bool) list \<times> directory \<times> string list
     \<Rightarrow> (ident \<times> bool) list \<times> directory \<times> string list" where
  "run_units w [] acc = acc"
| "run_units w ((i, r) # us) (outs, st) =
     (case download_file w i r st of (ok, st') \<Rightarrow> run_units w us (outs @ [(i, ok)], st'))"

definition download_pdfs ::
  "world \<Rightarrow> (ident \<times> row) list \<Rightarrow> directory \<times> string list
     \<Rightarrow> (ident \<times> bool) list \<times> directory \<times> string list" where
  "download_pdfs w download_queue st =
     run_units w (sort_key (\<lambda>(index, r). completion_time w index) download_queue) ([], st)"

section \<open>The status report\<close>

text \<open>\<^verbatim>\<open>list.index\<close>: the position of the first element equal to \<open>x\<close>. The program
  calls it only after \<^verbatim>\<open>index in download_errors\<close> has answered yes.\<close>

fun list_index :: "'a list \<Rightarrow> 'a \<Rightarrow> nat" where
  "list_index [] x = 0"
| "list_index (y # ys) x = (if y = x then 0 else Suc (list_index ys x))"

definition output_row :: "directory \<Rightarrow> string list \<Rightarrow> ident \<Rightarrow> status_record" where
  "output_row fs download_errors index =
     (if path_exists fs (index @ ''.pdf'')
      then \<lparr>Report_ID = index, Status = ''Downloaded'', Error_Message = ''''\<rparr>
      else \<lparr>Report_ID = index, Status = ''Failed'',
            Error_Message =
              (if index \<in> set download_errors
               then (let error_idx = list_index download_errors index
                     in if error_idx + 1 < length download_errors
                        then download_errors ! (error_idx + 1) else '''')
               else ''File not found'')\<rparr>)"

text \<open>\<^verbatim>\<open>DataFrame.drop_duplicates(subset=[key], keep="last")\<close>: a line stays when no
  later line has its key; the lines that stay keep their order.\<close>

fun drop_duplicates :: "('a \<Rightarrow> 'k) \<Rightarrow> 'a list \<Rightarrow> 'a list" where
  "drop_duplicates key [] = []"
| "drop_duplicates key (x # xs) =
     (if key x \<in> key ` set xs then drop_duplicates key xs else x # drop_duplicates key xs)"

definition new_output :: "directory \<Rightarrow> (ident \<times> row) list \<Rightarrow> string list \<Rightarrow> status_record list" where
  "new_output fs download_queue download_errors =
     map (\<lambda>(index, r). output_row fs download_errors index) download_queue"

definition create_output_report ::
  "directory \<Rightarrow> (ident \<times> row) list \<Rightarrow> string list \<Rightarrow> status_record list stored
     \<Rightarrow> status_record list" where
  "create_output_report fs download_queue download_errors status_file =
     (let new_output_df = new_output fs download_queue download_errors
      in case status_file of
           Present existing_df \<Rightarrow> drop_duplicates Report_ID (existing_df @ new_output_df)
         | Unreadable \<Rightarrow> new_output_df
         | Absent \<Rightarrow> new_output_df)"

text \<open>The record of an identifier in a status table: the last line that carries it.\<close>

definition latest :: "status_record list \<Rightarrow> ident \<Rightarrow> status_record option" where
  "latest table i = find (\<lambda>r. Report_ID r = i) (rev table)"

section \<open>The metadata table\<close>

text \<open>A Python \<^verbatim>\<open>dict\<close> with its insertion order: assigning to a key that is
  present replaces the value in place, to a new key appends it.\<close>

type_synonym pydict = "(string \<times> string option) list"

definition new_record :: "frame \<Rightarrow> indexed_frame \<Rightarrow> ident list \<Rightarrow> ident \<Rightarrow> pydict" where
  "new_record metadata_df reports_data downloaded_files report_id =
     (let status = (if report_id \<in> set downloaded_files then ''Yes'' else ''No'');
          new_record = [(ID_COLUMN, Some report_id), (''pdf_downloaded'', Some status)]
      in case map_of (irows reports_data) report_id of
           None \<Rightarrow> new_record
         | Some source_row \<Rightarrow>
             foldl (\<lambda>d col.
                      if col \<in> set (fcolumns metadata_df) \<and> col \<notin> set [ID_COLUMN, ''pdf_downloaded'']
                      then AList.update col (source_row col) d else d)
                   new_record (icolumns reports_data))"

text \<open>Columns in the order of their first appearance, as \<^verbatim>\<open>pd.DataFrame\<close> collects
  the keys of a list of dicts and \<^verbatim>\<open>pd.concat\<close> the columns of its frames.\<close>

fun add_columns :: "string list \<Rightarrow> string list \<Rightarrow> string list" where
  "add_columns cs [] = cs"
| "add_columns cs (d # ds) = add_columns (if d \<in> set cs then cs else cs @ [d]) ds"

definition row_of :: "pydict \<Rightarrow> row" where
  "row_of d = (\<lambda>col. case map_of d col of Some v \<Rightarrow> v | None \<Rightarrow> None)"

definition DataFrame :: "pydict list \<Rightarrow> frame" where
  "DataFrame records =
     \<lparr>fcolumns = add_columns [] (concat (map (map fst) records)), frows = map row_of records\<rparr>"

definition concat_frames :: "frame \<Rightarrow> frame \<Rightarrow> frame" where
  "concat_frames a b =
     \<lparr>fcolumns = add_columns (fcolumns a) (fcolumns b), frows = frows a @ frows b\<rparr>"

definition load_metadata :: "frame option \<Rightarrow> frame" where
  "load_metadata metadata_file =
     (case metadata_file of
        None \<Rightarrow> \<lparr>fcolumns = [ID_COLUMN, ''pdf_downloaded''], frows = []\<rparr>
      | Some m \<Rightarrow> m)"

definition new_data :: "directory \<Rightarrow> (ident \<times> row) list \<Rightarrow> indexed_frame \<Rightarrow> frame \<Rightarrow> frame" where
  "new_data fs download_queue reports_data metadata_df =
     (let downloaded_files = get_existing_downloads fs
      in DataFrame (map (new_record metadata_df reports_data downloaded_files)
                        (map fst download_queue)))"

text \<open>\<^verbatim>\<open>update_metadata\<close> returns the table it writes to \<^verbatim>\<open>METADATA_PATH\<close>;
  \<^verbatim>\<open>drop_duplicates\<close> raises \<^verbatim>\<open>KeyError\<close> when the frame has no column
  \<^verbatim>\<open>ID_COLUMN\<close>, and then nothing is written.\<close>

definition update_metadata ::
  "directory \<Rightarrow> (ident \<times> row) list \<Rightarrow> indexed_frame \<Rightarrow> frame option \<Rightarrow> error + frame" where
  "update_metadata fs download_queue reports_data metadata_file =
     (let metadata_df = load_metadata metadata_file;
          updated_metadata = concat_frames metadata_df
                               (new_data fs download_queue reports_data metadata_df)
      in if ID_COLUMN \<notin> set (fcolumns updated_metadata) then Inl (KeyError ID_COLUMN)
         else Inr (updated_metadata\<lparr>frows :=
                     drop_duplicates (\<lambda>r. r ID_COLUMN) (frows updated_metadata)\<rparr>))"

definition metadata_backup :: "frame option \<Rightarrow> frame" where
  "metadata_backup metadata_file = load_metadata metadata_file"

text \<open>What \<^verbatim>\<open>pd.read_excel\<close> returns for a sheet of texts that \<^verbatim>\<open>to_excel\<close> has
  written. With its default settings (\<^verbatim>\<open>keep_default_na=True\<close>) it takes an empty cell,
  and every text on pandas' list of markers of missing values, for NaN. A column whose
  texts all read as numbers would come back as numbers; this function is not applied to
  such a column below.\<close>

definition STR_NA_VALUES :: "string list" where
  "STR_NA_VALUES =
     ['''', ''#N/A'', ''#N/A N/A'', ''#NA'', ''-1.#IND'', ''-1.#QNAN'', ''-NaN'', ''-nan'',
      ''1.#IND'', ''1.#QNAN'', ''<NA>'', ''N/A'', ''NA'', ''NULL'', ''NaN'', ''None'', ''n/a'',
      ''nan'', ''null'']"

definition read_cell :: "string option \<Rightarrow> string option" where
  "read_cell c =
     (case c of
        None \<Rightarrow> None
      | Some s \<Rightarrow> if s \<in> set STR_NA_VALUES then None else Some s)"

definition read_excel :: "frame \<Rightarrow> frame" where
  "read_excel written = written\<lparr>frows := map (\<lambda>r col. read_cell (r col)) (frows written)\<rparr>"

text \<open>Two runs of \<^verbatim>\<open>update_metadata\<close> over the same queue: the second loads the sheet
  that the first has written.\<close>

definition update_metadata_twice ::
  "directory \<Rightarrow> (ident \<times> row) list \<Rightarrow> indexed_frame \<Rightarrow> frame option \<Rightarrow> error + frame" where
  "update_metadata_twice fs download_queue reports_data metadata_file =
     (case update_metadata fs download_queue reports_data metadata_file of
        Inl e \<Rightarrow> Inl e
      | Inr written \<Rightarrow>
          update_metadata fs download_queue reports_data (Some (read_excel written)))"

section \<open>The main program\<close>

text \<open>\<^verbatim>\<open>DataFrame.loc[labels]\<close>: for each label in turn, the rows that carry it.\<close>

definition loc :: "(ident \<times> row) list \<Rightarrow> ident list \<Rightarrow> (ident \<times> row) list" where
  "loc table labels = concat (map (\<lambda>l. filter (\<lambda>(i, r). i = l) table) labels)"

definition has_valid_url :: "row \<Rightarrow> bool" where
  "has_valid_url r = (r ''Pdf_URL'' \<noteq> None \<or> r ''Report Html Address'' \<noteq> None)"

definition build_queue :: "indexed_frame \<Rightarrow> directory \<Rightarrow> (ident \<times> row) list" where
  "build_queue reports_data fs =
     (let existing_downloads = get_existing_downloads fs;
          to_download = filter (\<lambda>idx. idx \<notin> set existing_downloads) (map fst (irows reports_data));
          download_queue = loc (irows reports_data) to_download
      in if length download_queue > MAX_DOWNLOADS
         then take MAX_DOWNLOADS download_queue else download_queue)"

record run =
  dispatched :: "(ident \<times> row) list"
  unit_outcomes :: "(ident \<times> bool) list"
  ledger :: "string list"
  downloads :: directory
  run_report :: "status_record list"
  status_table :: "status_record list"
  metadata_result :: "error + frame"

text \<open>\<^verbatim>\<open>main\<close> returns early (\<open>None\<close>) when the reports sheet is missing or cannot
  be read. The upload to the remote drive is outside the model.\<close>

definition main ::
  "world \<Rightarrow> indexed_frame option \<Rightarrow> directory \<Rightarrow> status_record list stored \<Rightarrow> frame option
     \<Rightarrow> run option" where
  "main w reports_file fs status_file metadata_file =
     (case reports_file of
        None \<Rightarrow> None
      | Some sheet \<Rightarrow>
          (let reports_data = sheet\<lparr>irows := filter (\<lambda>(i, r). has_valid_url r) (irows sheet)\<rparr>;
               download_queue = build_queue reports_data fs;
               download_errors = [];
               (outs, fs', download_errors') =
                  (if length download_queue > 0
                   then download_pdfs w download_queue (fs, download_errors)
                   else ([], fs, download_errors))
           in Some \<lparr>dispatched = download_queue,
                    unit_outcomes = outs,
                    ledger = download_errors',
                    downloads = fs',
                    run_report = new_output fs' download_queue download_errors',
                    status_table = create_output_report fs' download_queue download_errors' status_file,
                    metadata_result = update_metadata fs' download_queue reports_data metadata_file\<rparr>))"

section \<open>Two runs\<close>

text \<open>A run over five reports. The server answers one address; writing
  \<^verbatim>\<open>X3.pdf\<close> fails after four bytes; the threads end in the reverse of the
  order in which they were started. \<^verbatim>\<open>X2.pdf\<close> is in the download directory
  before the run, and \<^verbatim>\<open>X5\<close> has no address at all.\<close>

definition example_world :: world where
  "example_world =
     \<lparr>http_get = (\<lambda>url. if url = ''http://h/ok'' then Body ''%PDF-1.4''
                         else RequestException ''timeout''),
      file_write = (\<lambda>name. if name = ''X3.pdf'' then WriteRaises 4 ''No space left on device''
                            else Written),
      completion_time = (\<lambda>index. if index = ''X1'' then 3 else if index = ''X3'' then 2 else 1)\<rparr>"

definition example_sheet :: indexed_frame where
  "example_sheet =
     \<lparr>icolumns = [''Name'', ''Pdf_URL'', ''Report Html Address''],
      irows = [(''X1'', [''Name'' \<mapsto> ''one'', ''Pdf_URL'' \<mapsto> ''http://h/ok'']),
               (''X2'', [''Name'' \<mapsto> ''two'', ''Report Html Address'' \<mapsto> ''http://h/ok'']),
               (''X3'', [''Name'' \<mapsto> ''three'', ''Pdf_URL'' \<mapsto> ''http://h/ok'']),
               (''X4'', [''Name'' \<mapsto> ''four'', ''Report Html Address'' \<mapsto> ''http://h/gone'']),
               (''X5'', [''Name'' \<mapsto> ''five''])]\<rparr>"

definition example_directory :: directory where
  "example_directory = [(''X2.pdf'', ''%PDF-old'')]"

text \<open>A run over two reports whose identifiers begin with a dot, into an empty
  directory. The first download succeeds; the write of the second fails after four
  bytes. The threads end in the order in which they were started.\<close>

definition hidden_world :: world where
  "hidden_world =
     \<lparr>http_get = (\<lambda>url. if url = ''http://h/ok'' then Body ''%PDF-1.4''
                         else RequestException ''timeout''),
      file_write = (\<lambda>name. if name = ''.x3.pdf'' then WriteRaises 4 ''No space left on device''
                            else Written),
      completion_time = (\<lambda>index. 0)\<rparr>"

definition hidden_sheet :: indexed_frame where
  "hidden_sheet =
     \<lparr>icolumns = [''Name'', ''Pdf_URL'', ''Report Html Address''],
      irows = [(''.x1'', [''Name'' \<mapsto> ''one'', ''Pdf_URL'' \<mapsto> ''http://h/ok'']),
               (''.x3'', [''Name'' \<mapsto> ''three'', ''Pdf_URL'' \<mapsto> ''http://h/ok''])]\<rparr>"

section \<open>Facts about the merge of tables\<close>

lemma set_drop_duplicates: "key ` set (drop_duplicates key xs) = key ` set xs"
  by (induction xs) auto

lemma drop_duplicates_subset: "set (drop_duplicates key xs) \<subseteq> set xs"
  by (induction xs) auto

lemma distinct_drop_duplicates: "distinct (map key (drop_duplicates key xs))"
proof (induction xs)
  case Nil
  show ?case by simp
next
  case (Cons x xs)
  have "key x \<notin> key ` set xs \<Longrightarrow> key x \<notin> key ` set (drop_duplicates key xs)"
    by (simp add: set_drop_duplicates)
  with Cons show ?case by auto
qed

lemma drop_duplicates_append:
  "drop_duplicates key (xs @ ys) =
     filter (\<lambda>x. key x \<notin> key ` set ys) (drop_duplicates key xs) @ drop_duplicates key ys"
  by (induction xs) (auto simp: image_Un)

lemma drop_duplicates_distinct: "distinct (map key xs) \<Longrightarrow> drop_duplicates key xs = xs"
  by (induction xs) auto

lemma drop_duplicates_idem: "drop_duplicates key (drop_duplicates key xs) = drop_duplicates key xs"
  by (simp add: drop_duplicates_distinct distinct_drop_duplicates)

lemma drop_duplicates_twice:
  "drop_duplicates key (drop_duplicates key (xs @ ys) @ ys) = drop_duplicates key (xs @ ys)"
proof -
  let ?P = "\<lambda>x. key x \<notin> key ` set ys"
  have "drop_duplicates key (drop_duplicates key (xs @ ys) @ ys)
      = filter ?P (drop_duplicates key (drop_duplicates key (xs @ ys))) @ drop_duplicates key ys"
    by (rule drop_duplicates_append)
  also have "\<dots> = filter ?P (drop_duplicates key (xs @ ys)) @ drop_duplicates key ys"
    by (simp only: drop_duplicates_idem)
  also have "filter ?P (drop_duplicates key (xs @ ys)) = filter ?P (drop_duplicates key xs)"
  proof -
    have "filter ?P (drop_duplicates key ys) = []"
      using drop_duplicates_subset [of key ys] by (auto simp: filter_empty_conv)
    then show ?thesis by (simp add: drop_duplicates_append)
  qed
  finally show ?thesis by (simp add: drop_duplicates_append)
qed

lemma find_app:
  "find P (xs @ ys) = (case find P xs of Some x \<Rightarrow> Some x | None \<Rightarrow> find P ys)"
  by (induction xs) auto

lemma find_SomeD: "find P xs = Some x \<Longrightarrow> x \<in> set xs \<and> P x"
  by (induction xs) (auto split: if_splits)

lemma latest_append:
  "latest (xs @ ys) i = (case latest ys i of Some r \<Rightarrow> Some r | None \<Rightarrow> latest xs i)"
  by (simp add: latest_def find_app split: option.splits)

lemma latest_None: "latest xs i = None \<longleftrightarrow> i \<notin> Report_ID ` set xs"
  by (auto simp: latest_def find_None_iff)

lemma latest_drop_duplicates: "latest (drop_duplicates Report_ID xs) i = latest xs i"
proof (induction xs)
  case Nil
  show ?case by simp
next
  case (Cons x xs)
  have split: "\<And>zs. latest (x # zs) i = (case latest zs i of Some r \<Rightarrow> Some r | None \<Rightarrow> if Report_ID x = i then Some x else None)"
    using latest_append [of "[x]" _ i] by (simp add: latest_def split: option.splits)
  show ?case
  proof (cases "Report_ID x \<in> Report_ID ` set xs")
    case True
    then have "Report_ID x = i \<Longrightarrow> latest xs i \<noteq> None" by (simp add: latest_None)
    with True Cons show ?thesis by (auto simp: split split: option.splits)
  next
    case False
    with Cons show ?thesis by (simp add: split)
  qed
qed

lemma latest_Some: "latest xs i = Some r \<Longrightarrow> r \<in> set xs \<and> Report_ID r = i"
  using find_SomeD [of "\<lambda>r. Report_ID r = i" "rev xs" r] by (simp add: latest_def)

lemma map_Report_ID_new_output:
  "map Report_ID (new_output fs download_queue download_errors) = map fst download_queue"
  by (induction download_queue) (auto simp: new_output_def output_row_def)

lemma Report_ID_new_output:
  "Report_ID ` set (new_output fs download_queue download_errors) = fst ` set download_queue"
  using map_Report_ID_new_output [of fs download_queue download_errors]
  by (metis list.set_map)

lemma Report_ID_output_row: "Report_ID (output_row fs download_errors i) = i"
  by (simp add: output_row_def)

lemma latest_new_output:
  assumes "i \<in> fst ` set download_queue"
  shows "latest (new_output fs download_queue download_errors) i = Some (output_row fs download_errors i)"
proof -
  have "latest (new_output fs download_queue download_errors) i \<noteq> None"
    using assms by (simp add: latest_None Report_ID_new_output)
  then obtain r where r: "latest (new_output fs download_queue download_errors) i = Some r"
    by auto
  from latest_Some [OF r] have "r \<in> set (new_output fs download_queue download_errors)" "Report_ID r = i"
    by simp_all
  then have "r = output_row fs download_errors i"
    by (auto simp: new_output_def Report_ID_output_row)
  with r show ?thesis by simp
qed

lemma count_one:
  "distinct (map key xs) \<Longrightarrow> i \<in> key ` set xs \<Longrightarrow> length (filter (\<lambda>x. key x = i) xs) = 1"
proof (induction xs)
  case Nil
  then show ?case by simp
next
  case (Cons x xs)
  show ?case
  proof (cases "key x = i")
    case True
    have "\<And>y. y \<in> set xs \<Longrightarrow> key y \<noteq> i"
    proof
      fix y assume "y \<in> set xs" and "key y = i"
      then have "key x \<in> key ` set xs" using True by force
      with Cons.prems(1) show False by simp
    qed
    then have "filter (\<lambda>x. key x = i) xs = []"
      by (simp add: filter_empty_conv)
    with True show ?thesis by simp
  next
    case False
    with Cons show ?thesis by auto
  qed
qed

lemma single_line:
  assumes "distinct (map key xs)" and "k \<in> key ` set xs"
    and "\<And>x. x \<in> set xs \<Longrightarrow> key x = k \<Longrightarrow> x = y"
  shows "filter (\<lambda>x. key x = k) xs = [y]"
proof -
  from count_one [OF assms(1,2)] obtain x where x: "filter (\<lambda>x. key x = k) xs = [x]"
    by (auto simp: length_Suc_conv)
  then have "x \<in> set (filter (\<lambda>x. key x = k) xs)" by simp
  then have "x \<in> set xs" and "key x = k" by simp_all
  with assms(3) x show ?thesis by simp
qed

lemma latest_merge:
  "latest (create_output_report fs download_queue download_errors (Present previous)) i =
     (if i \<in> fst ` set download_queue then Some (output_row fs download_errors i)
      else latest previous i)"
proof -
  have "latest (create_output_report fs download_queue download_errors (Present previous)) i
      = latest (previous @ new_output fs download_queue download_errors) i"
    by (simp add: create_output_report_def latest_drop_duplicates)
  also have "\<dots> = (if i \<in> fst ` set download_queue then Some (output_row fs download_errors i)
      else latest previous i)"
  proof (cases "i \<in> fst ` set download_queue")
    case True
    then show ?thesis by (simp add: latest_append latest_new_output)
  next
    case False
    then have "latest (new_output fs download_queue download_errors) i = None"
      by (simp add: latest_None Report_ID_new_output)
    with False show ?thesis by (simp add: latest_append)
  qed
  finally show ?thesis .
qed

lemma ids_merge:
  "Report_ID ` set (create_output_report fs download_queue download_errors (Present previous)) =
     Report_ID ` set previous \<union> fst ` set download_queue"
  by (simp add: create_output_report_def set_drop_duplicates image_Un Report_ID_new_output)

lemma distinct_merge:
  "distinct (map Report_ID (create_output_report fs download_queue download_errors (Present previous)))"
  by (simp add: create_output_report_def distinct_drop_duplicates)

lemma filter_all_new:
  "filter (\<lambda>x. key x \<in> key ` set ys) (filter (\<lambda>x. key x \<notin> key ` set ys) xs @ ys) = ys"
proof -
  have "filter (\<lambda>x. key x \<in> key ` set ys) ys = ys" by (simp add: filter_id_conv)
  moreover have "filter (\<lambda>x. key x \<in> key ` set ys) (filter (\<lambda>x. key x \<notin> key ` set ys) xs) = []"
    by (simp add: filter_empty_conv)
  ultimately show ?thesis by simp
qed

lemma report_within_table:
  assumes "distinct (map fst download_queue)"
  shows "filter (\<lambda>x. Report_ID x \<in> fst ` set download_queue)
           (create_output_report fs download_queue download_errors status_file)
         = new_output fs download_queue download_errors"
proof -
  let ?n = "new_output fs download_queue download_errors"
  have ids: "fst ` set download_queue = Report_ID ` set ?n" by (simp add: Report_ID_new_output)
  have d: "drop_duplicates Report_ID ?n = ?n"
    using assms by (simp add: drop_duplicates_distinct map_Report_ID_new_output)
  have all: "filter (\<lambda>x. Report_ID x \<in> Report_ID ` set ?n) ?n = ?n" by (simp add: filter_id_conv)
  show ?thesis
  proof (cases status_file)
    case (Present previous)
    then show ?thesis
      unfolding ids by (simp add: create_output_report_def Let_def drop_duplicates_append d filter_all_new)
  qed (simp_all add: create_output_report_def Let_def ids all)
qed

text \<open>Merging the lines of a run into a table that already is the result of merging
  them changes nothing, when the identifiers of the queue are distinct. This is a fact
  about \<^verbatim>\<open>pd.concat\<close> and \<^verbatim>\<open>drop_duplicates\<close> on a table held in memory: it speaks
  of a second run only where \<^verbatim>\<open>pd.read_excel\<close> returns the lines as they were
  written.\<close>

lemma status_idempotent:
  assumes "distinct (map fst download_queue)"
  shows "create_output_report fs download_queue download_errors
           (Present (create_output_report fs download_queue download_errors status_file))
         = create_output_report fs download_queue download_errors status_file"
proof -
  let ?n = "new_output fs download_queue download_errors"
  have d: "distinct (map Report_ID ?n)"
    using assms by (simp add: map_Report_ID_new_output)
  have n: "drop_duplicates Report_ID (?n @ ?n) = ?n"
  proof -
    have "filter (\<lambda>x. Report_ID x \<notin> Report_ID ` set ?n) ?n = []"
      by (auto simp: filter_empty_conv)
    then show ?thesis
      using d by (simp add: drop_duplicates_append drop_duplicates_distinct)
  qed
  show ?thesis
  proof (cases status_file)
    case Absent
    with n show ?thesis by (simp add: create_output_report_def)
  next
    case Unreadable
    with n show ?thesis by (simp add: create_output_report_def)
  next
    case (Present previous)
    then show ?thesis by (simp add: create_output_report_def drop_duplicates_twice)
  qed
qed

section \<open>Facts about the list of errors\<close>

text \<open>The lookup that \<^verbatim>\<open>create_output_report\<close> makes in \<^verbatim>\<open>download_errors\<close>, when
  the list is made of what the units of a queue have appended, one unit after the
  other: it finds the message of the unit itself, unless a message that comes earlier
  is the identifier looked for.\<close>

lemma lookup_own_entry:
  assumes "distinct (map fst us)" and "(i, row) \<in> set us" and "A i row = [i, m]"
    and "\<And>k r. (k, r) \<in> set us \<Longrightarrow> A k r = [] \<or> (\<exists>m'. A k r = [k, m'] \<and> m' \<noteq> i)"
  shows "i \<in> set (concat (map (\<lambda>(k, r). A k r) us))
       \<and> list_index (concat (map (\<lambda>(k, r). A k r) us)) i + 1
           < length (concat (map (\<lambda>(k, r). A k r) us))
       \<and> concat (map (\<lambda>(k, r). A k r) us)
           ! (list_index (concat (map (\<lambda>(k, r). A k r) us)) i + 1) = m"
  using assms
proof (induction us)
  case Nil
  then show ?case by simp
next
  case (Cons u us)
  obtain k r where u: "u = (k, r)" by (cases u)
  let ?rest = "concat (map (\<lambda>(k, r). A k r) us)"
  have flat: "concat (map (\<lambda>(k, r). A k r) (u # us)) = A k r @ ?rest" by (simp add: u)
  show ?case
  proof (cases "k = i")
    case True
    with Cons.prems(1,2) u have "r = row" by (auto simp: image_iff)
    with True Cons.prems(3) have "A k r = [i, m]" by simp
    then show ?thesis unfolding flat by simp
  next
    case False
    with Cons.prems(2) u have mem: "(i, row) \<in> set us" by auto
    from Cons.prems(1) have dist: "distinct (map fst us)" by simp
    have rest: "\<And>k r. (k, r) \<in> set us \<Longrightarrow> A k r = [] \<or> (\<exists>m'. A k r = [k, m'] \<and> m' \<noteq> i)"
      using Cons.prems(4) by auto
    from Cons.IH [OF dist mem Cons.prems(3) rest] have ih1: "i \<in> set ?rest"
      and ih2: "list_index ?rest i + 1 < length ?rest"
      and ih3: "?rest ! (list_index ?rest i + 1) = m" by blast+
    from Cons.prems(4) [of k r] u
    consider "A k r = []" | m' where "A k r = [k, m']" and "m' \<noteq> i" by auto
    then show ?thesis
    proof cases
      case 1
      with ih1 ih2 ih3 show ?thesis unfolding flat by simp
    next
      case 2
      have li: "list_index (k # m' # ?rest) i = Suc (Suc (list_index ?rest i))"
        using False 2(2) by simp
      show ?thesis unfolding flat 2(1) using li ih1 ih2 ih3 by simp
    qed
  qed
qed

section \<open>Facts about the scanner and the queue\<close>

lemma endswith_append: "endswith (i @ ext) ext"
  by (simp add: endswith_def)

lemma endswithD: "endswith s ext \<Longrightarrow> s = take (length s - length ext) s @ ext"
  by (metis append_take_drop_id endswith_def)

lemma scanner_iff:
  "i \<in> set (get_existing_downloads fs)
     \<longleftrightarrow> path_exists fs (i @ ''.pdf'') \<and> \<not> ishidden (i @ ''.pdf'')"
proof
  assume "i \<in> set (get_existing_downloads fs)"
  then obtain f where f: "f \<in> fst ` set fs" "\<not> ishidden f" "endswith f ''.pdf''"
    and i: "i = take (length f - 4) f"
    by (auto simp: get_existing_downloads_def glob_pdf_def)
  have "length ''.pdf'' = 4" by simp
  with endswithD [OF f(3)] i have "f = i @ ''.pdf''" by metis
  with f show "path_exists fs (i @ ''.pdf'') \<and> \<not> ishidden (i @ ''.pdf'')"
    by (simp add: path_exists_def)
next
  assume a: "path_exists fs (i @ ''.pdf'') \<and> \<not> ishidden (i @ ''.pdf'')"
  then have "i @ ''.pdf'' \<in> set (glob_pdf fs)"
    by (simp add: glob_pdf_def path_exists_def endswith_append)
  then have "take (length (i @ ''.pdf'') - 4) (i @ ''.pdf'') \<in> set (get_existing_downloads fs)"
    unfolding get_existing_downloads_def Let_def set_map by (rule imageI)
  then show "i \<in> set (get_existing_downloads fs)" by simp
qed

lemma ishidden_pdf: "ishidden (i @ ''.pdf'') \<longleftrightarrow> i = [] \<or> hd i = CHR ''.''"
  by (cases i) (simp_all add: ishidden_def)

lemma fst_loc: "fst ` set (loc table labels) \<subseteq> set labels"
  by (auto simp: loc_def)

lemma loc_rows: "set (loc table labels) \<subseteq> set table"
  by (auto simp: loc_def)

lemma filter_label:
  "distinct (map fst table) \<Longrightarrow> l \<in> fst ` set table \<Longrightarrow>
     map fst (filter (\<lambda>(i, r). i = l) table) = [l]"
proof (induction table)
  case Nil
  then show ?case by simp
next
  case (Cons x table)
  show ?case
  proof (cases "fst x = l")
    case True
    with Cons.prems have "l \<notin> fst ` set table" by auto
    then have "filter (\<lambda>(i, r). i = l) table = []"
      by (force simp: filter_empty_conv)
    with True show ?thesis by (simp add: case_prod_unfold)
  next
    case False
    with Cons show ?thesis by (auto simp: case_prod_unfold)
  qed
qed

lemma map_fst_loc:
  "distinct (map fst table) \<Longrightarrow> set labels \<subseteq> fst ` set table \<Longrightarrow>
     map fst (loc table labels) = labels"
proof (induction labels)
  case Nil
  show ?case by (simp add: loc_def)
next
  case (Cons l labels)
  then have "map fst (loc table labels) = labels" by simp
  moreover have "map fst (filter (\<lambda>(i, r). i = l) table) = [l]"
    using Cons.prems by (simp add: filter_label)
  ultimately show ?case by (simp add: loc_def)
qed

lemma build_queue_not_existing:
  "fst ` set (build_queue reports_data fs) \<subseteq>
     {i \<in> fst ` set (irows reports_data). i \<notin> set (get_existing_downloads fs)}"
proof -
  let ?labels = "filter (\<lambda>idx. idx \<notin> set (get_existing_downloads fs)) (map fst (irows reports_data))"
  have "set (build_queue reports_data fs) \<subseteq> set (loc (irows reports_data) ?labels)"
    by (auto simp: build_queue_def Let_def dest: in_set_takeD)
  then have "fst ` set (build_queue reports_data fs) \<subseteq> fst ` set (loc (irows reports_data) ?labels)"
    by blast
  also have "\<dots> \<subseteq> set ?labels" by (rule fst_loc)
  finally show ?thesis by auto
qed

lemma build_queue_distinct:
  assumes "distinct (map fst (irows reports_data))"
  shows "distinct (map fst (build_queue reports_data fs))"
proof -
  let ?labels = "filter (\<lambda>idx. idx \<notin> set (get_existing_downloads fs)) (map fst (irows reports_data))"
  have "map fst (loc (irows reports_data) ?labels) = ?labels"
    using assms by (intro map_fst_loc) auto
  moreover have "distinct ?labels" using assms by simp
  ultimately have "distinct (map fst (loc (irows reports_data) ?labels))" by simp
  then have "distinct (take MAX_DOWNLOADS (map fst (loc (irows reports_data) ?labels)))"
    by (rule distinct_take)
  then show ?thesis
    by (auto simp: build_queue_def Let_def take_map)
qed

lemma build_queue_length: "length (build_queue reports_data fs) \<le> MAX_DOWNLOADS"
  by (simp add: build_queue_def Let_def)

section \<open>Facts about the metadata table\<close>

lemma set_add_columns: "set (add_columns cs ds) = set cs \<union> set ds"
  by (induction ds arbitrary: cs) auto

lemma add_columns_known: "set ds \<subseteq> set cs \<Longrightarrow> add_columns cs ds = cs"
  by (induction ds arbitrary: cs) auto

lemma foldl_update_keys:
  "fst ` set (foldl (\<lambda>d col. if P col then AList.update col (v col) d else d) d0 cols)
     = fst ` set d0 \<union> {c \<in> set cols. P c}"
  by (induction cols arbitrary: d0) (auto simp: AList.dom_update)

lemma foldl_update_map_of:
  "map_of (foldl (\<lambda>d col. if P col then AList.update col (v col) d else d) d0 cols) k
     = (if k \<in> set cols \<and> P k then Some (v k) else map_of d0 k)"
  by (induction cols arbitrary: d0) (auto simp: AList.update_conv')

lemma foldl_update_cong:
  "(\<And>c. c \<in> set cols \<Longrightarrow> P c = Q c) \<Longrightarrow>
     foldl (\<lambda>d col. if P col then AList.update col (v col) d else d) d0 cols
   = foldl (\<lambda>d col. if Q col then AList.update col (v col) d else d) d0 cols"
  by (induction cols arbitrary: d0) auto

lemma new_record_keys:
  "fst ` set (new_record metadata_df reports_data downloaded_files i)
     = {ID_COLUMN, ''pdf_downloaded''} \<union>
       (case map_of (irows reports_data) i of
          None \<Rightarrow> {}
        | Some source_row \<Rightarrow>
            {c \<in> set (icolumns reports_data).
               c \<in> set (fcolumns metadata_df) \<and> c \<notin> {ID_COLUMN, ''pdf_downloaded''}})"
  by (auto simp: new_record_def Let_def foldl_update_keys split: option.splits)

lemma new_record_cong:
  assumes "\<And>c. c \<in> set (icolumns reports_data) \<Longrightarrow> c \<notin> {ID_COLUMN, ''pdf_downloaded''} \<Longrightarrow>
             (c \<in> set (fcolumns m1)) = (c \<in> set (fcolumns m0))"
  shows "new_record m1 reports_data downloaded_files i = new_record m0 reports_data downloaded_files i"
proof (cases "map_of (irows reports_data) i")
  case None
  then show ?thesis by (simp add: new_record_def)
next
  case (Some source_row)
  have "foldl (\<lambda>d col. if col \<in> set (fcolumns m1) \<and> col \<notin> set [ID_COLUMN, ''pdf_downloaded'']
                         then AList.update col (source_row col) d else d)
              [(ID_COLUMN, Some i),
               (''pdf_downloaded'', Some (if i \<in> set downloaded_files then ''Yes'' else ''No''))]
              (icolumns reports_data)
      = foldl (\<lambda>d col. if col \<in> set (fcolumns m0) \<and> col \<notin> set [ID_COLUMN, ''pdf_downloaded'']
                         then AList.update col (source_row col) d else d)
              [(ID_COLUMN, Some i),
               (''pdf_downloaded'', Some (if i \<in> set downloaded_files then ''Yes'' else ''No''))]
              (icolumns reports_data)"
    by (rule foldl_update_cong) (use assms in auto)
  with Some show ?thesis by (simp add: new_record_def Let_def)
qed

lemma columns_DataFrame: "set (fcolumns (DataFrame records)) = (\<Union>d \<in> set records. fst ` set d)"
  by (auto simp: DataFrame_def set_add_columns)

lemma columns_new_data:
  "set (fcolumns (new_data fs download_queue reports_data metadata_df))
     \<subseteq> {ID_COLUMN, ''pdf_downloaded''} \<union> (set (fcolumns metadata_df) \<inter> set (icolumns reports_data))"
  by (auto simp: new_data_def Let_def columns_DataFrame new_record_keys split: option.splits)

lemma new_data_cong:
  assumes "\<And>c. c \<in> set (icolumns reports_data) \<Longrightarrow> c \<notin> {ID_COLUMN, ''pdf_downloaded''} \<Longrightarrow>
             (c \<in> set (fcolumns m1)) = (c \<in> set (fcolumns m0))"
  shows "new_data fs download_queue reports_data m1 = new_data fs download_queue reports_data m0"
proof -
  have "new_record m1 reports_data (get_existing_downloads fs)
      = new_record m0 reports_data (get_existing_downloads fs)"
    by (rule ext, rule new_record_cong) (use assms in auto)
  then show ?thesis by (simp add: new_data_def)
qed

text \<open>\<^verbatim>\<open>update_metadata\<close> applied to the very table it has returned returns it again.
  So a second run writes the table of the first whenever \<^verbatim>\<open>pd.read_excel\<close> returns that
  table as it was written.\<close>

lemma update_metadata_again:
  assumes "update_metadata fs download_queue reports_data metadata_file = Inr t"
  shows "update_metadata fs download_queue reports_data (Some t) = Inr t"
proof -
  let ?m0 = "load_metadata metadata_file"
  let ?n0 = "new_data fs download_queue reports_data ?m0"
  from assms have idc: "ID_COLUMN \<in> set (fcolumns (concat_frames ?m0 ?n0))"
    by (auto simp: update_metadata_def Let_def split: if_splits)
  from assms have t: "t = (concat_frames ?m0 ?n0)
      \<lparr>frows := drop_duplicates (\<lambda>r. r ID_COLUMN) (frows (concat_frames ?m0 ?n0))\<rparr>"
    by (auto simp: update_metadata_def Let_def split: if_splits)
  have ct: "set (fcolumns t) = set (fcolumns ?m0) \<union> set (fcolumns ?n0)"
    by (simp add: t concat_frames_def set_add_columns)
  have same: "new_data fs download_queue reports_data t = ?n0"
  proof (rule new_data_cong)
    fix c assume "c \<in> set (icolumns reports_data)" and "c \<notin> {ID_COLUMN, ''pdf_downloaded''}"
    then show "(c \<in> set (fcolumns t)) = (c \<in> set (fcolumns ?m0))"
      using columns_new_data [of fs download_queue reports_data ?m0] ct by auto
  qed
  have cols: "add_columns (fcolumns t) (fcolumns ?n0) = fcolumns t"
    by (rule add_columns_known) (simp add: ct)
  have rws: "frows t = drop_duplicates (\<lambda>r. r ID_COLUMN) (frows ?m0 @ frows ?n0)"
    by (simp add: t concat_frames_def)
  have "concat_frames t ?n0 = t\<lparr>frows := frows t @ frows ?n0\<rparr>"
    by (simp add: concat_frames_def cols)
  moreover have "drop_duplicates (\<lambda>r. r ID_COLUMN) (frows t @ frows ?n0) = frows t"
    by (simp add: rws drop_duplicates_twice)
  moreover have "ID_COLUMN \<in> set (fcolumns t)"
    using idc by (simp add: t)
  ultimately show ?thesis
    by (simp add: update_metadata_def Let_def load_metadata_def same)
qed

lemma update_metadata_twice_same:
  assumes "update_metadata fs download_queue reports_data metadata_file = Inr t"
    and "read_excel t = t"
  shows "update_metadata_twice fs download_queue reports_data metadata_file = Inr t"
  using assms update_metadata_again [OF assms(1)] by (simp add: update_metadata_twice_def)

text \<open>For every item of the queue the table that \<^verbatim>\<open>update_metadata\<close> writes holds exactly
  one line. Its flag is \<^verbatim>\<open>Yes\<close> when the scanner lists the file, that is when
  \<^verbatim>\<open><id>.pdf\<close> is in the directory and its name does not begin with a dot. Beyond the
  two fixed columns the line carries the cells of the source row in the columns that
  the metadata table already has, and the table gets no other column.\<close>

lemma new_record_fixed_cells:
  "row_of (new_record metadata_df reports_data downloaded_files i) ID_COLUMN = Some i"
  "row_of (new_record metadata_df reports_data downloaded_files i) ''pdf_downloaded''
     = Some (if i \<in> set downloaded_files then ''Yes'' else ''No'')"
  by (simp_all add: row_of_def new_record_def Let_def foldl_update_map_of ID_COLUMN_def
      split: option.splits)

lemma new_record_carried_cells:
  assumes "c \<notin> {ID_COLUMN, ''pdf_downloaded''}"
  shows "row_of (new_record metadata_df reports_data downloaded_files i) c =
     (case map_of (irows reports_data) i of
        None \<Rightarrow> None
      | Some source_row \<Rightarrow>
          if c \<in> set (icolumns reports_data) \<and> c \<in> set (fcolumns metadata_df)
          then source_row c else None)"
  using assms
  by (auto simp: row_of_def new_record_def Let_def foldl_update_map_of split: option.splits)

lemma metadata_line_of_item:
  assumes "update_metadata fs download_queue reports_data metadata_file = Inr t"
    and "i \<in> fst ` set download_queue"
  shows "filter (\<lambda>x. x ID_COLUMN = Some i) (frows t) =
     [row_of (new_record (load_metadata metadata_file) reports_data (get_existing_downloads fs) i)]"
proof -
  let ?m0 = "load_metadata metadata_file"
  let ?rec = "\<lambda>j. row_of (new_record ?m0 reports_data (get_existing_downloads fs) j)"
  let ?new = "map ?rec (map fst download_queue)"
  let ?key = "\<lambda>x :: row. x ID_COLUMN"
  from assms(1) have t: "frows t = drop_duplicates ?key (frows ?m0 @ ?new)"
    by (auto simp: update_metadata_def Let_def concat_frames_def new_data_def DataFrame_def
        comp_def split: if_splits)
  have keys: "?key ` set ?new = Some ` fst ` set download_queue"
    by (simp add: image_image new_record_fixed_cells)
  have d: "distinct (map ?key (frows t))"
    unfolding t by (rule distinct_drop_duplicates)
  have k: "Some i \<in> ?key ` set (frows t)"
    unfolding t set_drop_duplicates using assms(2) keys by (auto simp: image_Un)
  have "x = ?rec i" if "x \<in> set (frows t)" and "?key x = Some i" for x
  proof -
    from that(1) have "x \<in> set (filter (\<lambda>x. ?key x \<notin> ?key ` set ?new) (drop_duplicates ?key (frows ?m0)))
        \<or> x \<in> set (drop_duplicates ?key ?new)"
      unfolding t drop_duplicates_append by auto
    then show ?thesis
    proof
      assume "x \<in> set (filter (\<lambda>x. ?key x \<notin> ?key ` set ?new) (drop_duplicates ?key (frows ?m0)))"
      then have "?key x \<notin> ?key ` set ?new" by simp
      with that(2) keys assms(2) show ?thesis by auto
    next
      assume "x \<in> set (drop_duplicates ?key ?new)"
      then have "x \<in> set ?new" using drop_duplicates_subset by fastforce
      then obtain j where "x = ?rec j" by auto
      with that(2) show ?thesis by (simp add: new_record_fixed_cells)
    qed
  qed
  with d k show ?thesis by (intro single_line) auto
qed

lemma metadata_columns_kept:
  assumes "update_metadata fs download_queue reports_data metadata_file = Inr t"
    and "c \<notin> {ID_COLUMN, ''pdf_downloaded''}"
  shows "c \<in> set (fcolumns t) \<longleftrightarrow> c \<in> set (fcolumns (load_metadata metadata_file))"
proof -
  let ?m0 = "load_metadata metadata_file"
  from assms(1) have "set (fcolumns t) = set (fcolumns ?m0)
      \<union> set (fcolumns (new_data fs download_queue reports_data ?m0))"
    by (auto simp: update_metadata_def Let_def concat_frames_def set_add_columns split: if_splits)
  with columns_new_data [of fs download_queue reports_data ?m0] assms(2) show ?thesis by auto
qed

lemma metadata_flag_of_item:
  assumes "update_metadata fs download_queue reports_data metadata_file = Inr t"
    and "i \<in> fst ` set download_queue"
  shows "map (\<lambda>x. x ''pdf_downloaded'') (filter (\<lambda>x. x ID_COLUMN = Some i) (frows t)) =
     [Some (if path_exists fs (i @ ''.pdf'') \<and> \<not> ishidden (i @ ''.pdf'') then ''Yes'' else ''No'')]"
  by (simp add: metadata_line_of_item [OF assms] new_record_fixed_cells scanner_iff)

text \<open>So for an item whose file name does not begin with a dot, the status line and
  the flag both follow the presence of the file, whatever \<^verbatim>\<open>download_errors\<close>
  holds.\<close>

lemma label_and_flag_follow_file:
  assumes "update_metadata fs download_queue reports_data metadata_file = Inr t"
    and "i \<in> fst ` set download_queue" and "\<not> ishidden (i @ ''.pdf'')"
  shows "output_row fs download_errors i =
           (if path_exists fs (i @ ''.pdf'')
            then \<lparr>Report_ID = i, Status = ''Downloaded'', Error_Message = ''''\<rparr>
            else output_row fs download_errors i\<lparr>Status := ''Failed''\<rparr>)
       \<and> map (\<lambda>x. x ''pdf_downloaded'') (filter (\<lambda>x. x ID_COLUMN = Some i) (frows t)) =
           [Some (if path_exists fs (i @ ''.pdf'') then ''Yes'' else ''No'')]"
  using metadata_flag_of_item [OF assms(1,2)] assms(3)
  by (simp add: output_row_def)

section \<open>Facts about downloads and runs\<close>

lemma path_exists_update:
  "path_exists (AList.update name content fs) n \<longleftrightarrow> n = name \<or> path_exists fs n"
  by (auto simp: path_exists_def AList.dom_update)

lemma download_file_keeps_files:
  assumes "download_file w i r (fs, es) = (ok, fs', es')" and "path_exists fs n"
  shows "path_exists fs' n"
  using assms
  by (auto simp: download_file_def Let_def path_exists_update
      split: response.splits disk_answer.splits)

lemma download_file_success:
  assumes "download_file w i r (fs, es) = (True, fs', es')"
  shows "path_exists fs' (i @ ''.pdf'')"
  using assms
  by (auto simp: download_file_def Let_def path_exists_update
      split: response.splits disk_answer.splits)

lemma download_file_errors:
  assumes "download_file w i r (fs, es) = (ok, fs', es')"
  shows "if ok then es' = es else (\<exists>m. es' = es @ [i, m])"
  using assms
  by (auto simp: download_file_def Let_def split: response.splits disk_answer.splits)

lemma download_file_appends:
  assumes "download_file w i r (fs, es) = (ok, fs', es')"
  shows "es' = es @ snd (snd (download_file w i r ([], [])))"
  using assms
  by (auto simp: download_file_def Let_def split: response.splits disk_answer.splits)

lemma download_file_appended:
  "snd (snd (download_file w i r ([], []))) = [] \<or>
   (\<exists>m. snd (snd (download_file w i r ([], []))) = [i, m])"
  by (auto simp: download_file_def Let_def split: response.splits disk_answer.splits)

lemma run_units_ids:
  "map fst (fst (run_units w us (outs, st))) = map fst outs @ map fst us"
  by (induction us arbitrary: outs st) (auto split: prod.splits)

lemma run_units_snoc:
  "run_units w (us @ [(i, r)]) acc =
     (case run_units w us acc of
        (outs, st) \<Rightarrow> (case download_file w i r st of (ok, st') \<Rightarrow> (outs @ [(i, ok)], st')))"
  by (induction us arbitrary: acc) (auto split: prod.splits)

lemma run_units_success:
  assumes "run_units w us (outs, fs, es) = (outs', fs', es')"
    and "\<And>j. (j, True) \<in> set outs \<Longrightarrow> path_exists fs (j @ ''.pdf'')"
    and "(i, True) \<in> set outs'"
  shows "path_exists fs' (i @ ''.pdf'')"
  using assms
proof (induction us arbitrary: outs fs es)
  case Nil
  then show ?case by simp
next
  case (Cons u us)
  obtain j r where u: "u = (j, r)" by (cases u)
  obtain ok fs1 es1 where d: "download_file w j r (fs, es) = (ok, fs1, es1)"
    by (cases "download_file w j r (fs, es)")
  from Cons.prems(1) u d have run: "run_units w us (outs @ [(j, ok)], fs1, es1) = (outs', fs', es')"
    by simp
  have "path_exists fs1 (k @ ''.pdf'')" if "(k, True) \<in> set (outs @ [(j, ok)])" for k
  proof (cases "(k, True) \<in> set outs")
    case True
    from Cons.prems(2) [OF True] show ?thesis by (rule download_file_keeps_files [OF d])
  next
    case False
    with that have "k = j" and "ok" by simp_all
    with d show ?thesis by (simp add: download_file_success)
  qed
  from Cons.IH [OF run this Cons.prems(3)] show ?case .
qed

lemma run_units_borne_out:
  assumes "run_units w us (outs, fs, es) = (outs', fs', es')"
    and "\<forall>(j, success) \<in> set outs. if success then path_exists fs (j @ ''.pdf'') else j \<in> set es"
  shows "\<forall>(j, success) \<in> set outs'. if success then path_exists fs' (j @ ''.pdf'') else j \<in> set es'"
  using assms
proof (induction us arbitrary: outs fs es)
  case Nil
  then show ?case by (auto split: if_splits)
next
  case (Cons u us)
  obtain j r where u: "u = (j, r)" by (cases u)
  obtain ok fs1 es1 where d: "download_file w j r (fs, es) = (ok, fs1, es1)"
    by (cases "download_file w j r (fs, es)")
  from Cons.prems(1) u d have run: "run_units w us (outs @ [(j, ok)], fs1, es1) = (outs', fs', es')"
    by simp
  have old: "if success then path_exists fs1 (k @ ''.pdf'') else k \<in> set es1"
    if "(k, success) \<in> set outs" for k success
  proof (cases success)
    case True
    with Cons.prems(2) that have "path_exists fs (k @ ''.pdf'')" by auto
    with True show ?thesis by (simp add: download_file_keeps_files [OF d])
  next
    case False
    with Cons.prems(2) that have "k \<in> set es" by auto
    moreover from download_file_errors [OF d] have "set es \<subseteq> set es1" by (auto split: if_splits)
    ultimately show ?thesis using False by auto
  qed
  have new: "if ok then path_exists fs1 (j @ ''.pdf'') else j \<in> set es1"
  proof (cases ok)
    case True
    with d show ?thesis by (simp add: download_file_success)
  next
    case False
    with download_file_errors [OF d] show ?thesis by auto
  qed
  have "\<forall>(k, success) \<in> set (outs @ [(j, ok)]).
          if success then path_exists fs1 (k @ ''.pdf'') else k \<in> set es1"
    using old new by auto
  from Cons.IH [OF run this] show ?case .
qed

lemma run_units_ledger_length:
  assumes "run_units w us (outs, fs, es) = (outs', fs', es')"
    and "length es = 2 * length (filter (\<lambda>(j, success). \<not> success) outs)"
  shows "length es' = 2 * length (filter (\<lambda>(j, success). \<not> success) outs')"
  using assms
proof (induction us arbitrary: outs fs es)
  case Nil
  then show ?case by simp
next
  case (Cons u us)
  obtain j r where u: "u = (j, r)" by (cases u)
  obtain ok fs1 es1 where d: "download_file w j r (fs, es) = (ok, fs1, es1)"
    by (cases "download_file w j r (fs, es)")
  from Cons.prems(1) u d have run: "run_units w us (outs @ [(j, ok)], fs1, es1) = (outs', fs', es')"
    by simp
  have "length es1 = 2 * length (filter (\<lambda>(j, success). \<not> success) (outs @ [(j, ok)]))"
    using download_file_errors [OF d] Cons.prems(2) by (cases ok) auto
  from Cons.IH [OF run this] show ?case .
qed

lemma run_units_appends:
  assumes "run_units w us (outs, fs, es) = (outs', fs', es')"
  shows "es' = es @ concat (map (\<lambda>(i, r). snd (snd (download_file w i r ([], [])))) us)"
  using assms
proof (induction us arbitrary: outs fs es)
  case Nil
  then show ?case by simp
next
  case (Cons u us)
  obtain j r where u: "u = (j, r)" by (cases u)
  obtain ok fs1 es1 where d: "download_file w j r (fs, es) = (ok, fs1, es1)"
    by (cases "download_file w j r (fs, es)")
  from Cons.prems u d have run: "run_units w us (outs @ [(j, ok)], fs1, es1) = (outs', fs', es')"
    by simp
  from Cons.IH [OF run] download_file_appends [OF d] u show ?case by simp
qed

lemma main_Some:
  assumes "main w (Some sheet) fs status_file metadata_file = Some r"
  shows "dispatched r = build_queue (sheet\<lparr>irows := filter (\<lambda>(i, r). has_valid_url r) (irows sheet)\<rparr>) fs"
    and "(unit_outcomes r, downloads r, ledger r) =
           (if length (dispatched r) > 0 then download_pdfs w (dispatched r) (fs, []) else ([], fs, []))"
    and "run_report r = new_output (downloads r) (dispatched r) (ledger r)"
    and "status_table r = create_output_report (downloads r) (dispatched r) (ledger r) status_file"
    and "metadata_result r = update_metadata (downloads r) (dispatched r)
           (sheet\<lparr>irows := filter (\<lambda>(i, r). has_valid_url r) (irows sheet)\<rparr>) metadata_file"
  using assms by (auto simp: main_def Let_def split: prod.splits if_splits)

lemma main_success_file:
  assumes "main w (Some sheet) fs status_file metadata_file = Some r"
    and "(i, True) \<in> set (unit_outcomes r)"
  shows "path_exists (downloads r) (i @ ''.pdf'')"
proof -
  note m = main_Some [OF assms(1)]
  show ?thesis
  proof (cases "dispatched r = []")
    case True
    with m(2) assms(2) show ?thesis by simp
  next
    case False
    with m(2) have "run_units w (sort_key (\<lambda>(index, r). completion_time w index) (dispatched r))
          ([], fs, [])
        = (unit_outcomes r, downloads r, ledger r)"
      by (simp add: download_pdfs_def)
    then show ?thesis
      by (rule run_units_success) (use assms(2) in simp_all)
  qed
qed

text \<open>The status line of a unit in a run. A unit that succeeds is reported
  \<^verbatim>\<open>Downloaded\<close>. A unit that fails and leaves no file is reported \<^verbatim>\<open>Failed\<close> with the
  message that this very unit has recorded, provided no message recorded in the run is
  the identifier of the unit. Each unit's two appends to \<^verbatim>\<open>download_errors\<close> are taken
  together here, as everywhere in this model.\<close>

lemma line_of_unit:
  assumes "main w (Some sheet) fs status_file metadata_file = Some r"
    and "distinct (map fst (irows sheet))"
    and "(i, row) \<in> set (dispatched r)"
    and "\<And>k r' m. (k, r') \<in> set (dispatched r) \<Longrightarrow>
           snd (snd (download_file w k r' ([], []))) = [k, m] \<Longrightarrow> m \<noteq> i"
  shows "(i, True) \<in> set (unit_outcomes r) \<Longrightarrow>
           output_row (downloads r) (ledger r) i
             = \<lparr>Report_ID = i, Status = ''Downloaded'', Error_Message = ''''\<rparr>"
    and "snd (snd (download_file w i row ([], []))) = [i, m] \<Longrightarrow>
         \<not> path_exists (downloads r) (i @ ''.pdf'') \<Longrightarrow>
           output_row (downloads r) (ledger r) i
             = \<lparr>Report_ID = i, Status = ''Failed'', Error_Message = m\<rparr>"
proof -
  note mm = main_Some [OF assms(1)]
  let ?order = "sort_key (\<lambda>(index, r). completion_time w index) (dispatched r)"
  let ?A = "\<lambda>k r. snd (snd (download_file w k r ([], [])))"
  show "output_row (downloads r) (ledger r) i
             = \<lparr>Report_ID = i, Status = ''Downloaded'', Error_Message = ''''\<rparr>"
    if "(i, True) \<in> set (unit_outcomes r)"
    using main_success_file [OF assms(1) that] by (simp add: output_row_def)
  show "output_row (downloads r) (ledger r) i
             = \<lparr>Report_ID = i, Status = ''Failed'', Error_Message = m\<rparr>"
    if own: "?A i row = [i, m]" and nofile: "\<not> path_exists (downloads r) (i @ ''.pdf'')"
  proof -
    from assms(3) have ne: "dispatched r \<noteq> []" by auto
    with mm(2) have "run_units w ?order ([], fs, []) = (unit_outcomes r, downloads r, ledger r)"
      by (simp add: download_pdfs_def)
    from run_units_appends [OF this]
    have l: "ledger r = concat (map (\<lambda>(k, r). ?A k r) ?order)" by simp
    have d: "distinct (map fst (dispatched r))"
      unfolding mm(1) by (rule build_queue_distinct) (use assms(2) in \<open>simp add: distinct_map_filter\<close>)
    have "mset (map fst ?order) = mset (map fst (dispatched r))" by simp
    with d have d': "distinct (map fst ?order)" by (metis mset_eq_imp_distinct_iff)
    have mem: "(i, row) \<in> set ?order" using assms(3) by simp
    have others: "?A k r' = [] \<or> (\<exists>m'. ?A k r' = [k, m'] \<and> m' \<noteq> i)"
      if "(k, r') \<in> set ?order" for k r'
    proof -
      from that have "(k, r') \<in> set (dispatched r)" by simp
      with assms(4) download_file_appended [of w k r'] show ?thesis by blast
    qed
    from lookup_own_entry [of ?order i row ?A m, OF d' mem own others]
    show ?thesis
      unfolding output_row_def Let_def l [symmetric] using nofile by simp
  qed
qed

text \<open>The two runs, computed.\<close>

lemma example_run:
  "map_option (\<lambda>r. (map fst (dispatched r), unit_outcomes r, ledger r, downloads r, run_report r, status_table r))
     (main example_world (Some example_sheet) example_directory Absent None)
   = Some ([''X1'', ''X3'', ''X4''],
           [(''X4'', False), (''X3'', False), (''X1'', True)],
           [''X4'', ''Network error: timeout'', ''X3'', ''Unexpected error: No space left on device''],
           [(''X2.pdf'', ''%PDF-old''), (''X3.pdf'', ''%PDF''), (''X1.pdf'', ''%PDF-1.4'')],
           [\<lparr>Report_ID = ''X1'', Status = ''Downloaded'', Error_Message = ''''\<rparr>,
            \<lparr>Report_ID = ''X3'', Status = ''Downloaded'', Error_Message = ''''\<rparr>,
            \<lparr>Report_ID = ''X4'', Status = ''Failed'', Error_Message = ''Network error: timeout''\<rparr>],
           [\<lparr>Report_ID = ''X1'', Status = ''Downloaded'', Error_Message = ''''\<rparr>,
            \<lparr>Report_ID = ''X3'', Status = ''Downloaded'', Error_Message = ''''\<rparr>,
            \<lparr>Report_ID = ''X4'', Status = ''Failed'', Error_Message = ''Network error: timeout''\<rparr>])"
  by (simp add: main_def example_world_def example_sheet_def example_directory_def build_queue_def has_valid_url_def
      get_existing_downloads_def glob_pdf_def ishidden_def endswith_def loc_def MAX_DOWNLOADS_def
      download_pdfs_def download_file_def select_url_def new_output_def output_row_def path_exists_def
      create_output_report_def Let_def)

lemma hidden_scan:
  "get_existing_downloads [] = []"
  "get_existing_downloads [(''.x1.pdf'', ''%PDF-1.4''), (''.x3.pdf'', ''%PDF'')] = []"
  by (simp_all add: get_existing_downloads_def glob_pdf_def ishidden_def endswith_def)

lemma hidden_run:
  "map_option (\<lambda>r. (map fst (dispatched r), unit_outcomes r, ledger r, downloads r, run_report r,
                     (case metadata_result r of
                        Inl e \<Rightarrow> []
                      | Inr t \<Rightarrow> map (\<lambda>x. (x ''BRnum'', x ''pdf_downloaded'')) (frows t))))
     (main hidden_world (Some hidden_sheet) [] Absent None)
   = Some ([''.x1'', ''.x3''],
           [(''.x1'', True), (''.x3'', False)],
           [''.x3'', ''Unexpected error: No space left on device''],
           [(''.x1.pdf'', ''%PDF-1.4''), (''.x3.pdf'', ''%PDF'')],
           [\<lparr>Report_ID = ''.x1'', Status = ''Downloaded'', Error_Message = ''''\<rparr>,
            \<lparr>Report_ID = ''.x3'', Status = ''Downloaded'', Error_Message = ''''\<rparr>],
           [(Some ''.x1'', Some ''No''), (Some ''.x3'', Some ''No'')])"
  by (simp add: main_def hidden_world_def hidden_sheet_def build_queue_def has_valid_url_def
      hidden_scan loc_def MAX_DOWNLOADS_def
      download_pdfs_def download_file_def select_url_def new_output_def output_row_def path_exists_def
      create_output_report_def Let_def
      update_metadata_def load_metadata_def concat_frames_def
      new_data_def DataFrame_def new_record_def row_of_def ID_COLUMN_def)

section \<open>Facts about the orchestrator\<close>

lemma alive_after_finish:
  "k < length ts \<Longrightarrow> ts ! k = (u, True) \<Longrightarrow>
     Suc (length (filter snd (ts[k := (u, False)]))) = length (filter snd ts)"
proof (induction ts arbitrary: k)
  case Nil
  then show ?case by simp
next
  case (Cons t ts)
  show ?case
  proof (cases k)
    case 0
    with Cons.prems show ?thesis by simp
  next
    case (Suc j)
    with Cons.prems have "j < length ts" and "ts ! j = (u, True)" by simp_all
    from Cons.IH [OF this] Suc show ?thesis by simp
  qed
qed

lemma step_alive:
  assumes "step w c s s'" and "alive s \<le> c" and "location s = Dispatch \<longrightarrow> alive s < c"
  shows "alive s' \<le> c \<and> (location s' = Dispatch \<longrightarrow> alive s' < c)"
  using assms
proof (cases rule: step.cases)
  case (finish k i r ok st')
  from alive_after_finish [OF finish(2,3)]
  have "Suc (alive s') = alive s" by (simp add: finish(1) alive_def)
  moreover have "location s' = location s" by (simp add: finish(1))
  ultimately show ?thesis using assms(2,3) by auto
qed (auto simp: alive_def)

lemma finished_after_finish:
  "k < length ts \<Longrightarrow> ts ! k = (u, True) \<Longrightarrow>
     mset (map fst (filter (\<lambda>t. \<not> snd t) (ts[k := (u, False)])))
       = add_mset u (mset (map fst (filter (\<lambda>t. \<not> snd t) ts)))"
proof (induction ts arbitrary: k)
  case Nil
  then show ?case by simp
next
  case (Cons t ts)
  show ?case
  proof (cases k)
    case 0
    with Cons.prems show ?thesis by simp
  next
    case (Suc j)
    with Cons.prems have "j < length ts" and "ts ! j = (u, True)" by simp_all
    from Cons.IH [OF this] Suc show ?thesis by simp
  qed
qed

lemma threads_after_finish:
  "k < length ts \<Longrightarrow> ts ! k = (u, b) \<Longrightarrow> map fst (ts[k := (u, b')]) = map fst ts"
  by (simp add: map_update) (metis fst_conv list_update_id map_update)

lemma all_finished: "length (filter snd ts) = 0 \<Longrightarrow> filter (\<lambda>t. \<not> snd t) ts = ts"
  by (induction ts) (auto split: if_splits)

lemma reachable_units:
  assumes "reachable w c download_queue st s"
  shows "mset (map fst (threads s)) + mset (pending s) = mset download_queue
       \<and> (location s = Join \<or> location s = Finished \<longrightarrow> pending s = [])
       \<and> (location s = Finished \<longrightarrow> alive s = 0)
       \<and> (\<exists>order. mset order = mset (map fst (filter (\<lambda>t. \<not> snd t) (threads s)))
              \<and> (outcomes s, shared s) = run_units w order ([], st))"
  using assms
proof (induction rule: reachable.induct)
  case init
  have "([], st) = run_units w [] ([], st)" by simp
  then show ?case by (auto simp: initial_def)
next
  case (next_step s s')
  from next_step.IH obtain order where
    a: "mset (map fst (threads s)) + mset (pending s) = mset download_queue"
    and b: "location s = Join \<or> location s = Finished \<longrightarrow> pending s = []"
    and c: "location s = Finished \<longrightarrow> alive s = 0"
    and d: "mset order = mset (map fst (filter (\<lambda>t. \<not> snd t) (threads s)))"
    and e: "(outcomes s, shared s) = run_units w order ([], st)"
    by blast
  from next_step.hyps(2) show ?case
  proof (cases rule: step.cases)
    case (start u us)
    with a b c d e show ?thesis by (auto simp: alive_def)
  next
    case poll_sleep
    with a b c d e show ?thesis by auto
  next
    case poll_exit
    with a b c d e show ?thesis by (auto simp: alive_def)
  next
    case queue_end
    with a b c d e show ?thesis by (auto simp: alive_def)
  next
    case join_sleep
    with a b c d e show ?thesis by auto
  next
    case join_exit
    with a b c d e show ?thesis by (auto simp: alive_def)
  next
    case (finish k i r ok st')
    have t: "map fst (threads s') = map fst (threads s)"
      using threads_after_finish [OF finish(2,3)] by (simp add: finish(1))
    have f: "mset (order @ [(i, r)]) = mset (map fst (filter (\<lambda>t. \<not> snd t) (threads s')))"
      using finished_after_finish [OF finish(2,3)] d by (simp add: finish(1))
    have "run_units w (order @ [(i, r)]) ([], st) = (outcomes s @ [(i, ok)], st')"
      using e [symmetric] finish(4) by (simp add: run_units_snoc)
    then have g: "(outcomes s', shared s') = run_units w (order @ [(i, r)]) ([], st)"
      by (simp add: finish(1))
    have l: "location s' = location s" "pending s' = pending s" by (simp_all add: finish(1))
    have "alive s' \<le> alive s"
      using alive_after_finish [OF finish(2,3)] by (simp add: finish(1) alive_def)
    with a b c t l f g show ?thesis by (metis le_zero_eq)
  qed
qed

text \<open>Every run of the transition system that reaches \<open>Finished\<close> leaves the outcomes
  and the shared state that \<^verbatim>\<open>run_units\<close> computes for some order of the queue.\<close>

lemma orchestrator_result:
  assumes "reachable w c download_queue st s" and "location s = Finished"
  shows "\<exists>order. mset order = mset download_queue
           \<and> (outcomes s, shared s) = run_units w order ([], st)"
proof -
  from reachable_units [OF assms(1)] assms(2) obtain order where
    a: "mset (map fst (threads s)) + mset (pending s) = mset download_queue"
    and b: "pending s = []" and c: "alive s = 0"
    and d: "mset order = mset (map fst (filter (\<lambda>t. \<not> snd t) (threads s)))"
    and e: "(outcomes s, shared s) = run_units w order ([], st)"
    by blast
  from c have "filter (\<lambda>t. \<not> snd t) (threads s) = threads s"
    by (simp add: alive_def all_finished)
  with a b d have "mset order = mset download_queue" by simp
  with e show ?thesis by blast
qed

lemma outcomes_among_queue:
  assumes "reachable w c download_queue st s"
  shows "mset (map fst (outcomes s)) \<subseteq># mset (map fst download_queue)"
proof -
  from reachable_units [OF assms] obtain order where
    a: "mset (map fst (threads s)) + mset (pending s) = mset download_queue"
    and d: "mset order = mset (map fst (filter (\<lambda>t. \<not> snd t) (threads s)))"
    and e: "(outcomes s, shared s) = run_units w order ([], st)"
    by blast
  have "map fst (outcomes s) = map fst order"
    using run_units_ids [of w order "[]" st] e [symmetric] by simp
  then have "mset (map fst (outcomes s)) = image_mset fst (mset order)" by simp
  also have "mset order \<subseteq># mset (map fst (threads s))"
    unfolding d mset_map mset_filter by (intro image_mset_subseteq_mono multiset_filter_subset)
  then have "image_mset fst (mset order) \<subseteq># image_mset fst (mset (map fst (threads s)))"
    by (rule image_mset_subseteq_mono)
  also have "mset (map fst (threads s)) \<subseteq># mset download_queue"
    using a by (metis mset_subset_eq_add_left)
  then have "image_mset fst (mset (map fst (threads s))) \<subseteq># image_mset fst (mset download_queue)"
    by (rule image_mset_subseteq_mono)
  finally show ?thesis by simp
qed

lemma finished_outcomes:
  assumes "reachable w c download_queue (fs, es) s" and "location s = Finished"
  shows "mset (map fst (outcomes s)) = mset (map fst download_queue)
       \<and> (\<forall>(i, success) \<in> set (outcomes s).
            if success then path_exists (fst (shared s)) (i @ ''.pdf'')
            else i \<in> set (snd (shared s)))"
proof -
  from orchestrator_result [OF assms] obtain order where
    o: "mset order = mset download_queue"
    and e: "(outcomes s, shared s) = run_units w order ([], fs, es)" by blast
  have "map fst (outcomes s) = map fst order"
    using run_units_ids [of w order "[]" "(fs, es)"] e [symmetric] by simp
  then have "mset (map fst (outcomes s)) = image_mset fst (mset order)" by simp
  with o have a: "mset (map fst (outcomes s)) = mset (map fst download_queue)" by simp
  from e have "run_units w order ([], fs, es) = (outcomes s, fst (shared s), snd (shared s))"
    by simp
  from run_units_borne_out [OF this] a show ?thesis by simp
qed

text \<open>With the bound \<open>0\<close> the first thread is started all the same: the loop
  starts a thread before it polls.\<close>

lemma bound_zero_is_exceeded:
  "reachable example_world 0 [(''X1'', Map.empty)] ([], [])
     \<lparr>pending = [], threads = [((''X1'', Map.empty), True)], location = Poll,
      shared = ([], []), outcomes = []\<rparr>
   \<and> alive \<lparr>pending = [], threads = [((''X1'', Map.empty), True)], location = Poll,
      shared = ([], []), outcomes = []\<rparr> = 1"
proof -
  let ?q = "[(''X1'', Map.empty :: row)]"
  let ?s0 = "initial ?q ([], [])"
  let ?s1 = "\<lparr>pending = [], threads = [((''X1'', Map.empty :: row), True)],
      location = Poll, shared = ([], []), outcomes = []\<rparr>"
  have r0: "reachable example_world 0 ?q ([], []) ?s0"
    by (rule reachable.init)
  have "step example_world 0 ?s0
          (?s0\<lparr>pending := [], threads := threads ?s0 @ [((''X1'', Map.empty), True)],
                location := Poll\<rparr>)"
    by (rule step.start) (simp_all add: initial_def)
  then have s: "step example_world 0 ?s0 ?s1"
    by (simp add: initial_def)
  have "reachable example_world 0 ?q ([], []) ?s1"
    by (rule reachable.next_step [OF r0 s])
  then show ?thesis by (simp add: alive_def)
qed

text \<open>From every state the loop can go on to its end, when the bound is at least
  \<open>1\<close>: the threads that are alive can end, and then the controller is not held up
  any more.\<close>

lemma reachable_steps:
  assumes "(step w c)\<^sup>*\<^sup>* s s'" and "reachable w c download_queue st s"
  shows "reachable w c download_queue st s'"
  using assms by (induction rule: rtranclp_induct) (auto intro: reachable.next_step)

lemma some_thread_alive:
  "0 < length (filter snd ts) \<Longrightarrow> \<exists>k u. k < length ts \<and> ts ! k = (u, True)"
proof -
  assume "0 < length (filter snd ts)"
  then obtain t where "t \<in> set ts" and "snd t"
    by (metis filter_False length_greater_0_conv)
  then obtain k where "k < length ts" and "ts ! k = t" by (auto simp: in_set_conv_nth)
  with \<open>snd t\<close> show ?thesis by (cases t) auto
qed

lemma threads_can_end:
  "\<exists>s'. (step w c)\<^sup>*\<^sup>* s s' \<and> alive s' = 0 \<and> location s' = location s \<and> pending s' = pending s"
proof (induction "alive s" arbitrary: s)
  case 0
  then show ?case by auto
next
  case (Suc n)
  from Suc.hyps(2) have "0 < length (filter snd (threads s))"
    unfolding alive_def by linarith
  from some_thread_alive [OF this] obtain k u where k: "k < length (threads s)"
    and u: "threads s ! k = (u, True)" by blast
  obtain i r where ir: "u = (i, r)" by (cases u)
  obtain ok st' where d: "download_file w i r (shared s) = (ok, st')"
    by (cases "download_file w i r (shared s)")
  let ?s1 = "s\<lparr>threads := (threads s)[k := ((i, r), False)], shared := st',
                outcomes := outcomes s @ [(i, ok)]\<rparr>"
  have st: "step w c s ?s1"
    using k u ir d by (intro step.finish) auto
  have "Suc (alive ?s1) = alive s"
    using alive_after_finish [OF k, of "(i, r)"] u ir by (simp add: alive_def)
  with Suc.hyps(2) have "n = alive ?s1" by simp
  from Suc.hyps(1) [OF this] obtain s' where "(step w c)\<^sup>*\<^sup>* ?s1 s'" and "alive s' = 0"
    and "location s' = location ?s1" and "pending s' = pending ?s1" by blast
  with st show ?case by (auto intro: converse_rtranclp_into_rtranclp)
qed

lemma queue_can_be_dispatched:
  assumes "1 \<le> c"
  shows "location s = Dispatch \<Longrightarrow>
     \<exists>s'. (step w c)\<^sup>*\<^sup>* s s' \<and> location s' = Dispatch \<and> pending s' = [] \<and> alive s' = 0"
proof (induction "pending s" arbitrary: s)
  case Nil
  from threads_can_end [of w c s] obtain s' where "(step w c)\<^sup>*\<^sup>* s s'" and "alive s' = 0"
    and "location s' = location s" and "pending s' = pending s" by blast
  with Nil show ?case by auto
next
  case (Cons u us)
  let ?s1 = "s\<lparr>pending := us, threads := threads s @ [(u, True)], location := Poll\<rparr>"
  have s1: "step w c s ?s1"
    using Cons.hyps(2) Cons.prems by (intro step.start) auto
  from threads_can_end [of w c ?s1] obtain s2 where s2: "(step w c)\<^sup>*\<^sup>* ?s1 s2"
    and a2: "alive s2 = 0" and l2: "location s2 = Poll" and p2: "pending s2 = us" by auto
  let ?s3 = "s2\<lparr>location := Dispatch\<rparr>"
  have s3: "step w c s2 ?s3"
    using l2 a2 assms by (intro step.poll_exit) auto
  have "us = pending ?s3" using p2 by simp
  from Cons.hyps(1) [OF this] obtain s' where "(step w c)\<^sup>*\<^sup>* ?s3 s'"
    and "location s' = Dispatch" and "pending s' = []" and "alive s' = 0" by auto
  moreover have "(step w c)\<^sup>*\<^sup>* s ?s3"
    using s1 s2 s3 by (meson converse_rtranclp_into_rtranclp rtranclp.rtrancl_into_rtrancl)
  ultimately show ?case by (meson rtranclp_trans)
qed

lemma join_can_return:
  assumes "location s = Join"
  shows "\<exists>s'. (step w c)\<^sup>*\<^sup>* s s' \<and> location s' = Finished"
proof -
  from threads_can_end [of w c s] assms obtain s1 where s1: "(step w c)\<^sup>*\<^sup>* s s1"
    and "alive s1 = 0" and "location s1 = Join" by auto
  then have "step w c s1 (s1\<lparr>location := Finished\<rparr>)" by (intro step.join_exit)
  with s1 have "(step w c)\<^sup>*\<^sup>* s (s1\<lparr>location := Finished\<rparr>)" by auto
  moreover have "location (s1\<lparr>location := Finished\<rparr>) = Finished" by simp
  ultimately show ?thesis by blast
qed

lemma dispatch_can_return:
  assumes "1 \<le> c" and "location s = Dispatch"
  shows "\<exists>s'. (step w c)\<^sup>*\<^sup>* s s' \<and> location s' = Finished"
proof -
  from queue_can_be_dispatched [OF assms] obtain s1 where s1: "(step w c)\<^sup>*\<^sup>* s s1"
    and "location s1 = Dispatch" and "pending s1 = []" by blast
  then have "step w c s1 (s1\<lparr>location := Join\<rparr>)" by (intro step.queue_end)
  with s1 have s2: "(step w c)\<^sup>*\<^sup>* s (s1\<lparr>location := Join\<rparr>)" by auto
  from join_can_return [of "s1\<lparr>location := Join\<rparr>" w c] obtain s'
    where "(step w c)\<^sup>*\<^sup>* (s1\<lparr>location := Join\<rparr>) s'" and "location s' = Finished" by auto
  with s2 show ?thesis by (meson rtranclp_trans)
qed

lemma download_pdfs_can_return:
  assumes "1 \<le> c"
  shows "\<exists>s'. (step w c)\<^sup>*\<^sup>* s s' \<and> location s' = Finished"
proof (cases "location s")
  case Dispatch
  then show ?thesis by (rule dispatch_can_return [OF assms])
next
  case Poll
  from threads_can_end [of w c s] Poll obtain s1 where s1: "(step w c)\<^sup>*\<^sup>* s s1"
    and "alive s1 = 0" and "location s1 = Poll" by auto
  then have "step w c s1 (s1\<lparr>location := Dispatch\<rparr>)"
    using assms by (intro step.poll_exit) auto
  with s1 have s2: "(step w c)\<^sup>*\<^sup>* s (s1\<lparr>location := Dispatch\<rparr>)" by auto
  from dispatch_can_return [OF assms, of "s1\<lparr>location := Dispatch\<rparr>" w] obtain s'
    where "(step w c)\<^sup>*\<^sup>* (s1\<lparr>location := Dispatch\<rparr>) s'" and "location s' = Finished" by auto
  with s2 show ?thesis by (meson rtranclp_trans)
next
  case Join
  then show ?thesis by (rule join_can_return)
next
  case Finished
  then show ?thesis by auto
qed

section \<open>One outcome per dispatched item\<close>

text \<open>Claim C1. In a run of \<^verbatim>\<open>main\<close> over a sheet whose identifiers are distinct, every
  dispatched item (the pruned, capped queue) ends in exactly one outcome. The units that
  have run are the dispatched items, each once. Every outcome is borne out by the shared
  state: after a success the file of the unit is in the destination, after a failure
  the identifier of the unit is in \<^verbatim>\<open>download_errors\<close>, which holds two entries for every
  failed unit and nothing else. The status lines computed in this run carry the
  identifiers of the queue, one line per item, in the order of the queue and without
  repetition; each line rests on the outcome of its unit, so none is a line for an item
  without an outcome; and the lines of the persisted status table that belong to the
  queue are exactly these lines. The same holds for the loop of \<^verbatim>\<open>download_pdfs\<close> taken
  step by step under the program's bound: at no time does it hold more than one outcome
  for an item, from every state it can go on to its end, and when it has ended it holds
  one outcome for every item of the queue, each borne out by the shared state.\<close>

theorem one_outcome_per_dispatched_item:
  assumes "main w (Some sheet) fs status_file metadata_file = Some r"
    and "distinct (map fst (irows sheet))"
  shows "mset (map fst (unit_outcomes r)) = mset (map fst (dispatched r))
       \<and> length (unit_outcomes r) = length (dispatched r)
       \<and> (\<forall>(i, success) \<in> set (unit_outcomes r).
            if success then path_exists (downloads r) (i @ ''.pdf'') else i \<in> set (ledger r))
       \<and> length (ledger r) = 2 * length (filter (\<lambda>(i, success). \<not> success) (unit_outcomes r))
       \<and> map Report_ID (run_report r) = map fst (dispatched r)
       \<and> distinct (map Report_ID (run_report r))
       \<and> (\<forall>x \<in> set (run_report r). Status x = ''Downloaded'' \<or> Report_ID x \<in> set (ledger r))
       \<and> filter (\<lambda>x. Report_ID x \<in> fst ` set (dispatched r)) (status_table r) = run_report r
       \<and> (\<forall>s. reachable w MAX_CONCURRENT_THREADS (dispatched r) (fs, []) s \<longrightarrow>
             mset (map fst (outcomes s)) \<subseteq># mset (map fst (dispatched r))
             \<and> (\<exists>s'. (step w MAX_CONCURRENT_THREADS)\<^sup>*\<^sup>* s s' \<and> location s' = Finished)
             \<and> (location s = Finished \<longrightarrow>
                  mset (map fst (outcomes s)) = mset (map fst (dispatched r))
                  \<and> (\<forall>(i, success) \<in> set (outcomes s).
                       if success then path_exists (fst (shared s)) (i @ ''.pdf'')
                       else i \<in> set (snd (shared s)))))"
proof -
  note m = main_Some [OF assms(1)]
  let ?order = "sort_key (\<lambda>(index, r). completion_time w index) (dispatched r)"
  have d: "distinct (map fst (dispatched r))"
    unfolding m(1) by (rule build_queue_distinct) (use assms(2) in \<open>simp add: distinct_map_filter\<close>)
  have run: "run_units w ?order ([], fs, []) = (unit_outcomes r, downloads r, ledger r)
             \<or> (dispatched r = [] \<and> unit_outcomes r = [] \<and> ledger r = [])"
    using m(2) by (cases "dispatched r = []") (simp_all add: download_pdfs_def)
  have o1: "mset (map fst (unit_outcomes r)) = mset (map fst (dispatched r))"
    using run
  proof
    assume a: "run_units w ?order ([], fs, []) = (unit_outcomes r, downloads r, ledger r)"
    have "map fst (unit_outcomes r) = map fst ?order"
      using run_units_ids [of w ?order "[]" "(fs, [])"] a by simp
    then have "mset (map fst (unit_outcomes r)) = image_mset fst (mset ?order)" by simp
    then show ?thesis by simp
  qed simp
  then have o2: "length (unit_outcomes r) = length (dispatched r)"
    by (metis length_map size_mset)
  have o3: "\<forall>(i, success) \<in> set (unit_outcomes r).
            if success then path_exists (downloads r) (i @ ''.pdf'') else i \<in> set (ledger r)"
    using run
  proof
    assume "run_units w ?order ([], fs, []) = (unit_outcomes r, downloads r, ledger r)"
    from run_units_borne_out [OF this] show ?thesis by simp
  qed simp
  have o4: "length (ledger r) = 2 * length (filter (\<lambda>(i, success). \<not> success) (unit_outcomes r))"
    using run
  proof
    assume "run_units w ?order ([], fs, []) = (unit_outcomes r, downloads r, ledger r)"
    from run_units_ledger_length [OF this] show ?thesis by simp
  qed simp
  have r1: "map Report_ID (run_report r) = map fst (dispatched r)"
    by (simp add: m(3) map_Report_ID_new_output)
  have r3: "distinct (map Report_ID (run_report r))" using r1 d by simp
  have r5: "\<forall>x \<in> set (run_report r). Status x = ''Downloaded'' \<or> Report_ID x \<in> set (ledger r)"
  proof
    fix x assume "x \<in> set (run_report r)"
    then obtain i row where ir: "(i, row) \<in> set (dispatched r)"
      and x: "x = output_row (downloads r) (ledger r) i"
      unfolding m(3) new_output_def by auto
    from ir have "i \<in> set (map fst (dispatched r))" by force
    then have "i \<in># mset (map fst (unit_outcomes r))" using o1 by simp
    then obtain success where "(i, success) \<in> set (unit_outcomes r)" by auto
    with o3 have "if success then path_exists (downloads r) (i @ ''.pdf'') else i \<in> set (ledger r)"
      by auto
    then show "Status x = ''Downloaded'' \<or> Report_ID x \<in> set (ledger r)"
      unfolding x output_row_def by (auto split: if_splits)
  qed
  have r4: "filter (\<lambda>x. Report_ID x \<in> fst ` set (dispatched r)) (status_table r) = run_report r"
    unfolding m(3) m(4) by (rule report_within_table [OF d])
  have c: "1 \<le> MAX_CONCURRENT_THREADS" by (simp add: MAX_CONCURRENT_THREADS_def)
  have t: "mset (map fst (outcomes s)) \<subseteq># mset (map fst (dispatched r))
             \<and> (\<exists>s'. (step w MAX_CONCURRENT_THREADS)\<^sup>*\<^sup>* s s' \<and> location s' = Finished)
             \<and> (location s = Finished \<longrightarrow>
                  mset (map fst (outcomes s)) = mset (map fst (dispatched r))
                  \<and> (\<forall>(i, success) \<in> set (outcomes s).
                       if success then path_exists (fst (shared s)) (i @ ''.pdf'')
                       else i \<in> set (snd (shared s))))"
    if "reachable w MAX_CONCURRENT_THREADS (dispatched r) (fs, []) s" for s
    using outcomes_among_queue [OF that] download_pdfs_can_return [OF c, of w s]
      finished_outcomes [OF that] by blast
  from o1 o2 o3 o4 r1 r3 r5 r4 t show ?thesis by blast
qed

theorem one_outcome_per_dispatched_item_witness:
  "map_option (\<lambda>r. (unit_outcomes r, map Report_ID (run_report r), map fst (dispatched r),
                     length (ledger r)))
       (main example_world (Some example_sheet) example_directory Absent None)
     = Some ([(''X4'', False), (''X3'', False), (''X1'', True)],
             [''X1'', ''X3'', ''X4''], [''X1'', ''X3'', ''X4''], 4)
   \<and> map_option (\<lambda>r. filter (\<lambda>x. Report_ID x \<in> fst ` set (dispatched r)) (status_table r) = run_report r)
       (main example_world (Some example_sheet) example_directory Absent None) = Some True
   \<and> map_option (\<lambda>r. path_exists (downloads r) ''X1.pdf'' \<and> ''X3'' \<in> set (ledger r)
                      \<and> ''X4'' \<in> set (ledger r))
       (main example_world (Some example_sheet) example_directory Absent None) = Some True
   \<and> map_option (\<lambda>r. \<exists>s. (step example_world MAX_CONCURRENT_THREADS)\<^sup>*\<^sup>*
                            (initial (dispatched r) (example_directory, [])) s
                        \<and> location s = Finished
                        \<and> mset (map fst (outcomes s)) = mset [''X1'', ''X3'', ''X4''])
       (main example_world (Some example_sheet) example_directory Absent None) = Some True"
proof -
  have "main example_world (Some example_sheet) example_directory Absent None \<noteq> None"
    using example_run by auto
  then obtain r where r: "main example_world (Some example_sheet) example_directory Absent None = Some r"
    by auto
  have h2: "distinct (map fst (irows example_sheet))" by (simp add: example_sheet_def)
  note t = one_outcome_per_dispatched_item [OF r h2]
  from example_run r have q: "map fst (dispatched r) = [''X1'', ''X3'', ''X4'']"
    and o: "unit_outcomes r = [(''X4'', False), (''X3'', False), (''X1'', True)]" by simp_all
  from t have "\<forall>(i, success) \<in> set (unit_outcomes r).
            if success then path_exists (downloads r) (i @ ''.pdf'') else i \<in> set (ledger r)"
    by blast
  with o have b: "path_exists (downloads r) ''X1.pdf'' \<and> ''X3'' \<in> set (ledger r) \<and> ''X4'' \<in> set (ledger r)"
    by simp
  from t have "length (ledger r) = 2 * length (filter (\<lambda>(i, success). \<not> success) (unit_outcomes r))"
    by blast
  with o have l: "length (ledger r) = 4" by simp
  from t have p: "map Report_ID (run_report r) = map fst (dispatched r)"
    "filter (\<lambda>x. Report_ID x \<in> fst ` set (dispatched r)) (status_table r) = run_report r"
    by blast+
  let ?init = "initial (dispatched r) (example_directory, [])"
  have i: "reachable example_world MAX_CONCURRENT_THREADS (dispatched r) (example_directory, []) ?init"
    by (rule reachable.init)
  from t i obtain s where s: "(step example_world MAX_CONCURRENT_THREADS)\<^sup>*\<^sup>* ?init s"
    and f: "location s = Finished"
    by blast
  from reachable_steps [OF s i]
  have "reachable example_world MAX_CONCURRENT_THREADS (dispatched r) (example_directory, []) s" .
  with t f have "mset (map fst (outcomes s)) = mset (map fst (dispatched r))" by blast
  with q s f have e: "\<exists>s. (step example_world MAX_CONCURRENT_THREADS)\<^sup>*\<^sup>* ?init s
                        \<and> location s = Finished
                        \<and> mset (map fst (outcomes s)) = mset [''X1'', ''X3'', ''X4'']"
    by auto
  from p q o b l r e show ?thesis by simp
qed

section \<open>The bound on concurrent downloads\<close>

text \<open>Claim C2. For every bound \<open>c \<ge> 1\<close> and every queue, in every state that
  \<^verbatim>\<open>download_pdfs\<close> can reach at most \<open>c\<close> threads are alive. Whenever the controller
  is about to start the next thread, fewer than \<open>c\<close> are alive: a step that starts a
  thread is only taken from such a state, so a unit that is ready waits in the polling
  loop until a thread has finished.\<close>

theorem concurrency_bound:
  assumes "reachable w c download_queue st s" and "1 \<le> c"
  shows "alive s \<le> c
       \<and> (location s = Dispatch \<longrightarrow> alive s < c)
       \<and> (\<forall>s'. step w c s s' \<longrightarrow> length (threads s) < length (threads s') \<longrightarrow> alive s < c)"
proof -
  from assms(1) have inv: "alive s \<le> c \<and> (location s = Dispatch \<longrightarrow> alive s < c)"
  proof (induction rule: reachable.induct)
    case init
    show ?case using assms(2) by (simp add: initial_def alive_def)
  next
    case (next_step s s')
    then show ?case using step_alive by blast
  qed
  have "alive s < c" if "step w c s s'" and "length (threads s) < length (threads s')" for s'
    using that inv by (cases rule: step.cases) auto
  with inv show ?thesis by blast
qed

theorem concurrency_bound_witness:
  "reachable example_world MAX_CONCURRENT_THREADS [(''X1'', Map.empty), (''X3'', Map.empty)] ([], [])
     \<lparr>pending = [(''X3'', Map.empty)], threads = [((''X1'', Map.empty), True)], location = Poll,
      shared = ([], []), outcomes = []\<rparr>
   \<and> alive \<lparr>pending = [(''X3'', Map.empty)], threads = [((''X1'', Map.empty), True)], location = Poll,
      shared = ([], []), outcomes = []\<rparr> \<le> MAX_CONCURRENT_THREADS
   \<and> 1 \<le> MAX_CONCURRENT_THREADS"
proof -
  let ?q = "[(''X1'', Map.empty :: row), (''X3'', Map.empty)]"
  let ?s0 = "initial ?q ([], [])"
  let ?s1 = "\<lparr>pending = [(''X3'', Map.empty :: row)], threads = [((''X1'', Map.empty :: row), True)],
      location = Poll, shared = ([], []), outcomes = []\<rparr>"
  have r0: "reachable example_world MAX_CONCURRENT_THREADS ?q ([], []) ?s0"
    by (rule reachable.init)
  have "step example_world MAX_CONCURRENT_THREADS ?s0
          (?s0\<lparr>pending := [(''X3'', Map.empty)], threads := threads ?s0 @ [((''X1'', Map.empty), True)],
                location := Poll\<rparr>)"
    by (rule step.start) (simp_all add: initial_def)
  then have s: "step example_world MAX_CONCURRENT_THREADS ?s0 ?s1"
    by (simp add: initial_def)
  have r1: "reachable example_world MAX_CONCURRENT_THREADS ?q ([], []) ?s1"
    by (rule reachable.next_step [OF r0 s])
  have c: "1 \<le> MAX_CONCURRENT_THREADS" by (simp add: MAX_CONCURRENT_THREADS_def)
  from concurrency_bound [OF r1 c] r1 c show ?thesis by blast
qed

section \<open>Files that are already in the destination\<close>

text \<open>Claim C3, as the program has it. When the destination holds a file
  \<^verbatim>\<open><id>.pdf\<close> that the scanner lists, the identifier is not dispatched, and no status
  line is computed for it in this run: \<^verbatim>\<open>create_output_report\<close> receives the pruned
  queue. The persisted table holds a record for it only when the previous table did, and
  then it is that previous record.\<close>

theorem existing_file_excluded_without_new_record:
  assumes "main w (Some sheet) fs status_file metadata_file = Some r"
    and "path_exists fs (i @ ''.pdf'')" and "\<not> ishidden (i @ ''.pdf'')"
  shows "i \<notin> fst ` set (dispatched r)
       \<and> i \<notin> Report_ID ` set (run_report r)
       \<and> latest (status_table r) i =
           (case status_file of Present previous \<Rightarrow> latest previous i | _ \<Rightarrow> None)"
proof -
  note m = main_Some [OF assms(1)]
  have sc: "i \<in> set (get_existing_downloads fs)"
    using assms(2,3) by (simp add: scanner_iff)
  have a: "i \<notin> fst ` set (dispatched r)"
    using build_queue_not_existing [of "sheet\<lparr>irows := filter (\<lambda>(i, r). has_valid_url r) (irows sheet)\<rparr>" fs] sc
    unfolding m(1) by blast
  then have b: "i \<notin> Report_ID ` set (run_report r)"
    by (simp add: m(3) Report_ID_new_output)
  have c: "latest (status_table r) i =
           (case status_file of Present previous \<Rightarrow> latest previous i | _ \<Rightarrow> None)"
  proof (cases status_file)
    case (Present previous)
    with a show ?thesis by (simp add: m(4) latest_merge)
  next
    case Absent
    with b show ?thesis by (simp add: m(3) m(4) create_output_report_def latest_None)
  next
    case Unreadable
    with b show ?thesis by (simp add: m(3) m(4) create_output_report_def latest_None)
  qed
  from a b c show ?thesis by simp
qed

theorem existing_file_excluded_without_new_record_witness:
  "map_option (\<lambda>r. (''X2'' \<in> fst ` set (dispatched r), latest (status_table r) ''X2''))
     (main example_world (Some example_sheet) example_directory
        (Present [\<lparr>Report_ID = ''X2'', Status = ''Failed'', Error_Message = ''Network error: timeout''\<rparr>])
        None)
   = Some (False, Some \<lparr>Report_ID = ''X2'', Status = ''Failed'', Error_Message = ''Network error: timeout''\<rparr>)"
proof -
  let ?prev = "[\<lparr>Report_ID = ''X2'', Status = ''Failed'', Error_Message = ''Network error: timeout''\<rparr>]"
  have "main example_world (Some example_sheet) example_directory (Present ?prev) None \<noteq> None"
    by (simp add: main_def Let_def split: prod.splits)
  then obtain r where r: "main example_world (Some example_sheet) example_directory (Present ?prev) None = Some r"
    by auto
  have h2: "path_exists example_directory (''X2'' @ ''.pdf'')"
    by (simp add: path_exists_def example_directory_def)
  have h3: "\<not> ishidden (''X2'' @ ''.pdf'')" by (simp add: ishidden_def)
  note t = existing_file_excluded_without_new_record [OF r h2 h3]
  have "latest ?prev ''X2'' = Some \<lparr>Report_ID = ''X2'', Status = ''Failed'', Error_Message = ''Network error: timeout''\<rparr>"
    by (simp add: latest_def)
  with t r show ?thesis by simp
qed

text \<open>The claim as stated fails: \<^verbatim>\<open>X2.pdf\<close> is in the destination and \<^verbatim>\<open>X2\<close> has
  an address, there is no previous status table, and after the run the table has no
  line for \<^verbatim>\<open>X2\<close>.\<close>

theorem existing_file_gets_no_record_counterexample:
  "path_exists example_directory ''X2.pdf''
   \<and> map_option has_valid_url (map_of (irows example_sheet) ''X2'') = Some True
   \<and> map_option (\<lambda>r. (''X2'' \<in> fst ` set (dispatched r), ''X2'' \<in> Report_ID ` set (status_table r)))
        (main example_world (Some example_sheet) example_directory Absent None)
      = Some (False, False)"
proof -
  have a: "path_exists example_directory ''X2.pdf''"
    by (simp add: path_exists_def example_directory_def)
  have b: "map_option has_valid_url (map_of (irows example_sheet) ''X2'') = Some True"
    by (simp add: example_sheet_def has_valid_url_def)
  have "main example_world (Some example_sheet) example_directory Absent None \<noteq> None"
    using example_run by auto
  then obtain r where r: "main example_world (Some example_sheet) example_directory Absent None = Some r"
    by auto
  with example_run have "map fst (dispatched r) = [''X1'', ''X3'', ''X4'']"
    and "map Report_ID (status_table r) = [''X1'', ''X3'', ''X4'']" by simp_all
  then have "set (map fst (dispatched r)) = {''X1'', ''X3'', ''X4''}"
    and "set (map Report_ID (status_table r)) = {''X1'', ''X3'', ''X4''}" by simp_all
  then have "''X2'' \<notin> fst ` set (dispatched r)" and "''X2'' \<notin> Report_ID ` set (status_table r)"
    by (simp_all only: set_map [symmetric]) simp_all
  with a b r show ?thesis by simp
qed

section \<open>The status line of a failed unit\<close>

text \<open>Claim C4, at a unit that fails after it has opened its file. The unit of
  \<^verbatim>\<open>X3\<close> fails and records its cause under its own identifier; the truncated file
  stays in the destination, and the status line of \<^verbatim>\<open>X3\<close> says \<^verbatim>\<open>Downloaded\<close> with an
  empty message, where the claim has \<^verbatim>\<open>Failed\<close> with that cause.\<close>

theorem failed_unit_reported_downloaded:
  "map_option (\<lambda>r. ((''X3'', False) \<in> set (unit_outcomes r),
                     ledger r,
                     latest (run_report r) ''X3'',
                     latest (status_table r) ''X3''))
     (main example_world (Some example_sheet) example_directory Absent None)
   = Some (True,
           [''X4'', ''Network error: timeout'', ''X3'', ''Unexpected error: No space left on device''],
           Some \<lparr>Report_ID = ''X3'', Status = ''Downloaded'', Error_Message = ''''\<rparr>,
           Some \<lparr>Report_ID = ''X3'', Status = ''Downloaded'', Error_Message = ''''\<rparr>)"
proof -
  have "main example_world (Some example_sheet) example_directory Absent None \<noteq> None"
    using example_run by auto
  then obtain r where r: "main example_world (Some example_sheet) example_directory Absent None = Some r"
    by auto
  with example_run have
    "unit_outcomes r = [(''X4'', False), (''X3'', False), (''X1'', True)]"
    "ledger r = [''X4'', ''Network error: timeout'', ''X3'', ''Unexpected error: No space left on device'']"
    "run_report r = [\<lparr>Report_ID = ''X1'', Status = ''Downloaded'', Error_Message = ''''\<rparr>,
            \<lparr>Report_ID = ''X3'', Status = ''Downloaded'', Error_Message = ''''\<rparr>,
            \<lparr>Report_ID = ''X4'', Status = ''Failed'', Error_Message = ''Network error: timeout''\<rparr>]"
    "status_table r = [\<lparr>Report_ID = ''X1'', Status = ''Downloaded'', Error_Message = ''''\<rparr>,
            \<lparr>Report_ID = ''X3'', Status = ''Downloaded'', Error_Message = ''''\<rparr>,
            \<lparr>Report_ID = ''X4'', Status = ''Failed'', Error_Message = ''Network error: timeout''\<rparr>]"
    by simp_all
  with r show ?thesis by (simp add: latest_def)
qed

section \<open>What a failed download leaves behind\<close>

text \<open>Claim C5, as the program has it. A unit whose outcome is a failure leaves the
  destination as it found it when the fetch failed or the file could not be opened;
  when the write fails after the file was opened, the file is left under its final name
  with the bytes written so far. In each case the unit appends its identifier and one
  message to \<^verbatim>\<open>download_errors\<close>.\<close>

theorem failed_download_effect_on_directory:
  assumes "download_file w i r (fs, download_errors) = (False, fs', download_errors')"
  shows "(case http_get w (select_url r) of
            Body content \<Rightarrow>
              (case file_write w (i @ ''.pdf'') of
                 WriteRaises n e \<Rightarrow> fs' = AList.update (i @ ''.pdf'') (take n content) fs
               | _ \<Rightarrow> fs' = fs)
          | _ \<Rightarrow> fs' = fs)
       \<and> (\<exists>m. download_errors' = download_errors @ [i, m])"
  using assms
  by (auto simp: download_file_def Let_def split: response.splits disk_answer.splits)

theorem failed_download_effect_on_directory_witness:
  "download_file example_world ''X4'' [''Report Html Address'' \<mapsto> ''http://h/gone''] (example_directory, [])
     = (False, example_directory, [''X4'', ''Network error: timeout''])"
proof -
  have d: "download_file example_world ''X4'' [''Report Html Address'' \<mapsto> ''http://h/gone''] (example_directory, [])
     = (False, snd (download_file example_world ''X4'' [''Report Html Address'' \<mapsto> ''http://h/gone''] (example_directory, [])))"
    by (simp add: download_file_def example_world_def select_url_def)
  obtain fs' es' where s: "snd (download_file example_world ''X4'' [''Report Html Address'' \<mapsto> ''http://h/gone''] (example_directory, [])) = (fs', es')"
    by (cases "snd (download_file example_world ''X4'' [''Report Html Address'' \<mapsto> ''http://h/gone''] (example_directory, []))")
  from d s have "download_file example_world ''X4'' [''Report Html Address'' \<mapsto> ''http://h/gone''] (example_directory, [])
     = (False, fs', es')" by simp
  from failed_download_effect_on_directory [OF this]
  have "fs' = example_directory"
    by (simp add: example_world_def select_url_def)
  moreover have "es' = [''X4'', ''Network error: timeout'']"
    using s by (simp add: download_file_def example_world_def select_url_def)
  ultimately show ?thesis using d s by simp
qed

text \<open>The claim as stated fails: the write of \<^verbatim>\<open>X3.pdf\<close> stops after four of the
  eight bytes, the outcome is a failure, and the truncated file is in the destination
  under its final name.\<close>

theorem failed_download_leaves_file_counterexample:
  "download_file example_world ''X3'' [''Pdf_URL'' \<mapsto> ''http://h/ok''] ([], [])
     = (False, [(''X3.pdf'', ''%PDF'')], [''X3'', ''Unexpected error: No space left on device''])
   \<and> path_exists [(''X3.pdf'', ''%PDF'')] ''X3.pdf''
   \<and> length ''%PDF'' < length ''%PDF-1.4''"
  by (simp add: download_file_def example_world_def select_url_def path_exists_def)

section \<open>The status reconciler keeps what it does not touch\<close>

text \<open>Claim C6. When a previous status table exists, an identifier that it holds and
  that is not among the work items of the current run still has its previous record in
  the table that \<^verbatim>\<open>create_output_report\<close> persists: the record read for it is the record
  the previous table gave (its last line for that identifier), and the persisted table
  holds exactly one line for it.\<close>

theorem status_merge_keeps_absent_identifiers:
  assumes "i \<in> Report_ID ` set previous" and "i \<notin> fst ` set download_queue"
  shows "latest (create_output_report fs download_queue download_errors (Present previous)) i
           = latest previous i
       \<and> (\<exists>r \<in> set previous. latest previous i = Some r)
       \<and> length (filter (\<lambda>r. Report_ID r = i)
            (create_output_report fs download_queue download_errors (Present previous))) = 1"
proof -
  have a: "latest (create_output_report fs download_queue download_errors (Present previous)) i
           = latest previous i"
    using assms(2) by (simp add: latest_merge)
  have "latest previous i \<noteq> None" using assms(1) by (simp add: latest_None)
  then obtain r where r: "latest previous i = Some r" by auto
  with latest_Some [OF r] have b: "\<exists>r \<in> set previous. latest previous i = Some r" by auto
  have "i \<in> Report_ID ` set (create_output_report fs download_queue download_errors (Present previous))"
    using assms(1) by (simp add: ids_merge)
  then have c: "length (filter (\<lambda>r. Report_ID r = i)
            (create_output_report fs download_queue download_errors (Present previous))) = 1"
    by (rule count_one [OF distinct_merge])
  from a b c show ?thesis by simp
qed

theorem status_merge_keeps_absent_identifiers_witness:
  "latest (create_output_report [] [(''B'', Map.empty)] []
       (Present [\<lparr>Report_ID = ''A'', Status = ''Downloaded'', Error_Message = ''''\<rparr>])) ''A''
     = Some \<lparr>Report_ID = ''A'', Status = ''Downloaded'', Error_Message = ''''\<rparr>
   \<and> create_output_report [] [(''B'', Map.empty)] []
       (Present [\<lparr>Report_ID = ''A'', Status = ''Downloaded'', Error_Message = ''''\<rparr>])
     = [\<lparr>Report_ID = ''A'', Status = ''Downloaded'', Error_Message = ''''\<rparr>,
        \<lparr>Report_ID = ''B'', Status = ''Failed'', Error_Message = ''File not found''\<rparr>]"
proof -
  let ?prev = "[\<lparr>Report_ID = ''A'', Status = ''Downloaded'', Error_Message = ''''\<rparr>]"
  have h1: "''A'' \<in> Report_ID ` set ?prev" by simp
  have h2: "''A'' \<notin> fst ` set [(''B'', Map.empty :: row)]" by simp
  have "latest (create_output_report [] [(''B'', Map.empty)] [] (Present ?prev)) ''A'' = latest ?prev ''A''"
    using status_merge_keeps_absent_identifiers [OF h1 h2, of "[]" "[]"] by blast
  moreover have "latest ?prev ''A'' = Some \<lparr>Report_ID = ''A'', Status = ''Downloaded'', Error_Message = ''''\<rparr>"
    by (simp add: latest_def)
  moreover have "create_output_report [] [(''B'', Map.empty)] [] (Present ?prev)
     = [\<lparr>Report_ID = ''A'', Status = ''Downloaded'', Error_Message = ''''\<rparr>,
        \<lparr>Report_ID = ''B'', Status = ''Failed'', Error_Message = ''File not found''\<rparr>]"
    by (simp add: create_output_report_def new_output_def output_row_def path_exists_def)
  ultimately show ?thesis by simp
qed

text \<open>Claim C7. A previous table over the identifiers \<open>{A, B}\<close> merged with the lines of
  a run over \<open>{B, C}\<close> holds exactly \<open>{A, B, C}\<close>, one line each; the lines of
  \<open>B\<close> and \<open>C\<close> are the ones computed in this run, the line of \<open>A\<close> is the
  previous one.\<close>

theorem status_merge_A_B_C:
  assumes "Report_ID ` set previous = {A, B}" and "fst ` set download_queue = {B, C}"
    and "A \<noteq> B" and "A \<noteq> C"
  shows "Report_ID ` set (create_output_report fs download_queue download_errors (Present previous))
           = {A, B, C}
       \<and> distinct (map Report_ID (create_output_report fs download_queue download_errors (Present previous)))
       \<and> latest (create_output_report fs download_queue download_errors (Present previous)) B
           = Some (output_row fs download_errors B)
       \<and> latest (create_output_report fs download_queue download_errors (Present previous)) C
           = Some (output_row fs download_errors C)
       \<and> latest (create_output_report fs download_queue download_errors (Present previous)) A
           = latest previous A
       \<and> (\<exists>r \<in> set previous. latest previous A = Some r)"
proof -
  have ids: "Report_ID ` set (create_output_report fs download_queue download_errors (Present previous))
           = {A, B, C}"
    using assms(1,2) by (auto simp: ids_merge)
  have b: "latest (create_output_report fs download_queue download_errors (Present previous)) B
           = Some (output_row fs download_errors B)"
    using assms(2) by (simp add: latest_merge)
  have c: "latest (create_output_report fs download_queue download_errors (Present previous)) C
           = Some (output_row fs download_errors C)"
    using assms(2) by (simp add: latest_merge)
  have a: "latest (create_output_report fs download_queue download_errors (Present previous)) A
           = latest previous A"
    using assms(2,3,4) by (simp add: latest_merge)
  have "latest previous A \<noteq> None" using assms(1) by (simp add: latest_None)
  then obtain r where r: "latest previous A = Some r" by auto
  with latest_Some [OF r] have e: "\<exists>r \<in> set previous. latest previous A = Some r" by auto
  from ids distinct_merge b c a e show ?thesis by simp
qed

theorem status_merge_A_B_C_witness:
  "Report_ID ` set (create_output_report [] [(''B'', Map.empty), (''C'', Map.empty)] []
       (Present [\<lparr>Report_ID = ''A'', Status = ''Downloaded'', Error_Message = ''''\<rparr>,
                 \<lparr>Report_ID = ''B'', Status = ''Downloaded'', Error_Message = ''''\<rparr>]))
     = {''A'', ''B'', ''C''}
   \<and> latest (create_output_report [] [(''B'', Map.empty), (''C'', Map.empty)] []
       (Present [\<lparr>Report_ID = ''A'', Status = ''Downloaded'', Error_Message = ''''\<rparr>,
                 \<lparr>Report_ID = ''B'', Status = ''Downloaded'', Error_Message = ''''\<rparr>])) ''B''
     = Some \<lparr>Report_ID = ''B'', Status = ''Failed'', Error_Message = ''File not found''\<rparr>
   \<and> latest (create_output_report [] [(''B'', Map.empty), (''C'', Map.empty)] []
       (Present [\<lparr>Report_ID = ''A'', Status = ''Downloaded'', Error_Message = ''''\<rparr>,
                 \<lparr>Report_ID = ''B'', Status = ''Downloaded'', Error_Message = ''''\<rparr>])) ''A''
     = Some \<lparr>Report_ID = ''A'', Status = ''Downloaded'', Error_Message = ''''\<rparr>"
proof -
  let ?prev = "[\<lparr>Report_ID = ''A'', Status = ''Downloaded'', Error_Message = ''''\<rparr>,
                \<lparr>Report_ID = ''B'', Status = ''Downloaded'', Error_Message = ''''\<rparr>]"
  let ?q = "[(''B'', Map.empty :: row), (''C'', Map.empty)]"
  have h1: "Report_ID ` set ?prev = {''A'', ''B''}" by simp
  have h2: "fst ` set ?q = {''B'', ''C''}" by simp
  have h3: "''A'' \<noteq> ''B''" by simp
  have h4: "''A'' \<noteq> ''C''" by simp
  note m = status_merge_A_B_C [OF h1 h2 h3 h4, of "[]" "[]"]
  have b: "output_row [] [] ''B'' = \<lparr>Report_ID = ''B'', Status = ''Failed'', Error_Message = ''File not found''\<rparr>"
    by (simp add: output_row_def path_exists_def)
  have a: "latest ?prev ''A'' = Some \<lparr>Report_ID = ''A'', Status = ''Downloaded'', Error_Message = ''''\<rparr>"
    by (simp add: latest_def)
  from m a b show ?thesis by simp
qed

section \<open>Running a reconciler twice\<close>


section \<open>Identifiers that begin with a dot\<close>

text \<open>Claim C9, at an identifier that begins with a dot. The download of \<^verbatim>\<open>.x1\<close>
  succeeds and \<^verbatim>\<open>.x1.pdf\<close> is in the directory after the download phase, but the
  scanner does not list it, and the metadata record of \<^verbatim>\<open>.x1\<close> says \<^verbatim>\<open>No\<close>.\<close>

theorem downloaded_hidden_file_flagged_No:
  "map_option (\<lambda>r. ((''.x1'', True) \<in> set (unit_outcomes r),
                     path_exists (downloads r) ''.x1.pdf'',
                     (case metadata_result r of
                        Inl e \<Rightarrow> []
                      | Inr t \<Rightarrow> map (\<lambda>x. x ''pdf_downloaded'')
                                   (filter (\<lambda>x. x ''BRnum'' = Some ''.x1'') (frows t)))))
     (main hidden_world (Some hidden_sheet) [] Absent None)
   = Some (True, True, [Some ''No''])"
proof -
  have "main hidden_world (Some hidden_sheet) [] Absent None \<noteq> None"
    using hidden_run by auto
  then obtain r where r: "main hidden_world (Some hidden_sheet) [] Absent None = Some r"
    by auto
  with hidden_run have
    "unit_outcomes r = [(''.x1'', True), (''.x3'', False)]"
    "downloads r = [(''.x1.pdf'', ''%PDF-1.4''), (''.x3.pdf'', ''%PDF'')]"
    "(case metadata_result r of Inl e \<Rightarrow> []
      | Inr t \<Rightarrow> map (\<lambda>x. (x ''BRnum'', x ''pdf_downloaded'')) (frows t))
     = [(Some ''.x1'', Some ''No''), (Some ''.x3'', Some ''No'')]"
    by simp_all
  with r show ?thesis
    by (cases "metadata_result r") (auto simp: path_exists_def map_eq_Cons_conv)
qed

text \<open>Claim C10, at an identifier that begins with a dot. The unit of \<^verbatim>\<open>.x3\<close> fails
  and leaves the truncated \<^verbatim>\<open>.x3.pdf\<close>; the status line says \<^verbatim>\<open>Downloaded\<close> with an
  empty message, as for every file that exists, but the metadata record says \<^verbatim>\<open>No\<close>.\<close>

theorem failed_hidden_file_status_and_flag_disagree:
  "map_option (\<lambda>r. ((''.x3'', False) \<in> set (unit_outcomes r),
                     path_exists (downloads r) ''.x3.pdf'',
                     latest (run_report r) ''.x3'',
                     (case metadata_result r of
                        Inl e \<Rightarrow> []
                      | Inr t \<Rightarrow> map (\<lambda>x. x ''pdf_downloaded'')
                                   (filter (\<lambda>x. x ''BRnum'' = Some ''.x3'') (frows t)))))
     (main hidden_world (Some hidden_sheet) [] Absent None)
   = Some (True, True,
           Some \<lparr>Report_ID = ''.x3'', Status = ''Downloaded'', Error_Message = ''''\<rparr>,
           [Some ''No''])"
proof -
  have "main hidden_world (Some hidden_sheet) [] Absent None \<noteq> None"
    using hidden_run by auto
  then obtain r where r: "main hidden_world (Some hidden_sheet) [] Absent None = Some r"
    by auto
  with hidden_run have
    "unit_outcomes r = [(''.x1'', True), (''.x3'', False)]"
    "downloads r = [(''.x1.pdf'', ''%PDF-1.4''), (''.x3.pdf'', ''%PDF'')]"
    "run_report r = [\<lparr>Report_ID = ''.x1'', Status = ''Downloaded'', Error_Message = ''''\<rparr>,
            \<lparr>Report_ID = ''.x3'', Status = ''Downloaded'', Error_Message = ''''\<rparr>]"
    "(case metadata_result r of Inl e \<Rightarrow> []
      | Inr t \<Rightarrow> map (\<lambda>x. (x ''BRnum'', x ''pdf_downloaded'')) (frows t))
     = [(Some ''.x1'', Some ''No''), (Some ''.x3'', Some ''No'')]"
    by simp_all
  with r show ?thesis
    by (cases "metadata_result r") (auto simp: path_exists_def latest_def map_eq_Cons_conv)
qed

end
